theory Spec2Isabelle
  imports Main "HOL-Library.Word"
begin

section \<open>Strings\<close>

text \<open>
  A JavaScript string is a sequence of UTF-16 code units.  A code unit is modelled by its
  number; \<open>str\<close> turns an ASCII/Latin-1 literal into such a sequence.
\<close>

type_synonym code_unit = "16 word"
type_synonym jsstring = "code_unit list"

definition str :: "string \<Rightarrow> jsstring" where
  "str s = map of_char s"

text \<open>
  \<open>String.prototype.substring(a, b)\<close> on non-negative integers: both indices are clamped
  to the length and swapped when out of order.  \<open>substring_from\<close> is the one-argument form.
\<close>

definition substring :: "jsstring \<Rightarrow> nat \<Rightarrow> nat \<Rightarrow> jsstring" where
  "substring s a b =
     (let a' = min a (length s); b' = min b (length s);
          lo = min a' b'; hi = max a' b'
      in take (hi - lo) (drop lo s))"

definition substring_from :: "jsstring \<Rightarrow> nat \<Rightarrow> jsstring" where
  "substring_from s a = drop (min a (length s)) s"

section \<open>Regular expressions\<close>

text \<open>
  The detector's patterns are regular expression literals.  They use character classes,
  concatenation, alternation, greedy bounded and unbounded repetition and the word boundary
  assertion, and neither captures nor look-around, so a match is decided by the end
  positions the backtracking matcher reaches, in the order it tries them.
\<close>

datatype regex =
    Eps
  | Chars "(code_unit \<times> code_unit) list"
  | Seq regex regex
  | Alt regex regex
  | Rep nat "nat option" regex
  | WordB

fun seql :: "regex list \<Rightarrow> regex" where
  "seql [] = Eps"
| "seql [r] = r"
| "seql (r # rs) = Seq r (seql rs)"

definition rg :: "char \<Rightarrow> char \<Rightarrow> code_unit \<times> code_unit" where
  "rg a b = (of_char a, of_char b)"

definition ch :: "char \<Rightarrow> code_unit \<times> code_unit" where
  "ch a = (of_char a, of_char a)"

definition lit :: "char \<Rightarrow> regex" where
  "lit a = Chars [ch a]"

definition opt :: "regex \<Rightarrow> regex" where
  "opt r = Rep 0 (Some 1) r"

definition many1 :: "regex \<Rightarrow> regex" where
  "many1 r = Rep 1 None r"

definition exactly :: "nat \<Rightarrow> regex \<Rightarrow> regex" where
  "exactly n r = Rep n (Some n) r"

fun in_class :: "(code_unit \<times> code_unit) list \<Rightarrow> code_unit \<Rightarrow> bool" where
  "in_class [] c = False"
| "in_class ((lo, hi) # rs) c = ((lo \<le> c \<and> c \<le> hi) \<or> in_class rs c)"

text \<open>
  The \<open>i\<close> flag compares canonicalised code units.  Canonicalisation upper-cases, and never
  maps a code unit from 128 on to one below 128, so on the ASCII classes of the patterns
  below it is decided by the ASCII letters alone.
\<close>

definition to_upper :: "code_unit \<Rightarrow> code_unit" where
  "to_upper c = (if 97 \<le> c \<and> c \<le> 122 then c - 32 else c)"

definition to_lower :: "code_unit \<Rightarrow> code_unit" where
  "to_lower c = (if 65 \<le> c \<and> c \<le> 90 then c + 32 else c)"

definition class_match :: "bool \<Rightarrow> (code_unit \<times> code_unit) list \<Rightarrow> code_unit \<Rightarrow> bool" where
  "class_match ic rs c =
     (if ic then in_class rs (to_upper c) \<or> in_class rs (to_lower c) else in_class rs c)"

definition digit :: "(code_unit \<times> code_unit) list" where
  "digit = [rg CHR ''0'' CHR ''9'']"

definition word_char :: "(code_unit \<times> code_unit) list" where
  "word_char = [rg CHR ''a'' CHR ''z'', rg CHR ''A'' CHR ''Z'', rg CHR ''0'' CHR ''9'', ch CHR ''_'']"

definition white_space :: "(code_unit \<times> code_unit) list" where
  "white_space =
     [(9, 13), (32, 32), (160, 160), (5760, 5760), (8192, 8202), (8232, 8233),
      (8239, 8239), (8287, 8287), (12288, 12288), (65279, 65279)]"

definition is_word_at :: "jsstring \<Rightarrow> nat \<Rightarrow> bool" where
  "is_word_at inp i = (i < length inp \<and> in_class word_char (inp ! i))"

definition word_boundary :: "jsstring \<Rightarrow> nat \<Rightarrow> bool" where
  "word_boundary inp i =
     ((if i = 0 then False else is_word_at inp (i - 1)) \<noteq> is_word_at inp i)"

text \<open>
  The repeat matcher for a greedy quantifier \<open>{mn,mx}\<close> (\<open>None\<close> is no upper bound).  \<open>f\<close>
  lists the end positions of one iteration and \<open>n\<close> is the length of the input;
  \<open>repeat_next\<close> goes on after an iteration from \<open>i\<close> that ended at \<open>j\<close>.  Once the minimum
  is met, an iteration that consumed nothing is given up.  No iteration ends before its
  start or beyond the input (\<open>repeat_bounds\<close> below), so \<open>i < j \<and> j \<le> n\<close> says that it
  consumed something.
\<close>

function repeat_matcher ::
  "(nat \<Rightarrow> nat list) \<Rightarrow> nat \<Rightarrow> nat \<Rightarrow> nat option \<Rightarrow> nat \<Rightarrow> nat list"
  and repeat_next ::
  "(nat \<Rightarrow> nat list) \<Rightarrow> nat \<Rightarrow> nat \<Rightarrow> nat option \<Rightarrow> nat \<Rightarrow> nat \<Rightarrow> nat list"
  where
  "repeat_matcher f n mn mx i =
     (if mx = Some 0 then [i]
      else if mn \<noteq> 0 then concat (map (repeat_next f n mn mx i) (f i))
      else concat (map (repeat_next f n mn mx i) (f i)) @ [i])"
| "repeat_next f n mn mx i j =
     (if mn = 0 \<and> \<not> (i < j \<and> j \<le> n) then []
      else repeat_matcher f n (mn - 1) (map_option (\<lambda>m. m - 1) mx) j)"
  by pat_completeness auto
termination
  by (relation "measures
        [\<lambda>x. case x of Inl (f, n, mn, mx, i) \<Rightarrow> mn | Inr (f, n, mn, mx, i, j) \<Rightarrow> mn,
         \<lambda>x. case x of Inl (f, n, mn, mx, i) \<Rightarrow> n - i | Inr (f, n, mn, mx, i, j) \<Rightarrow> n - i,
         \<lambda>x. case x of Inl _ \<Rightarrow> 1 | Inr _ \<Rightarrow> 0]") auto

declare repeat_matcher.simps [simp del] repeat_next.simps [simp del]

text \<open>
  \<open>match_ends r ic inp i\<close>: the end positions of the matches of \<open>r\<close> in \<open>inp\<close> that start at
  \<open>i\<close>, in the order in which backtracking finds them; \<open>ic\<close> is the \<open>i\<close> flag.
\<close>

primrec match_ends :: "regex \<Rightarrow> bool \<Rightarrow> jsstring \<Rightarrow> nat \<Rightarrow> nat list" where
  "match_ends Eps ic inp i = [i]"
| "match_ends (Chars rs) ic inp i =
     (if i < length inp \<and> class_match ic rs (inp ! i) then [Suc i] else [])"
| "match_ends (Seq a b) ic inp i = concat (map (match_ends b ic inp) (match_ends a ic inp i))"
| "match_ends (Alt a b) ic inp i = match_ends a ic inp i @ match_ends b ic inp i"
| "match_ends (Rep mn mx r) ic inp i = repeat_matcher (match_ends r ic inp) (length inp) mn mx i"
| "match_ends WordB ic inp i = (if word_boundary inp i then [i] else [])"

text \<open>A lower bound on the number of code units a match of a pattern consumes.\<close>

fun min_len :: "regex \<Rightarrow> nat" where
  "min_len Eps = 0"
| "min_len (Chars rs) = 1"
| "min_len (Seq a b) = min_len a + min_len b"
| "min_len (Alt a b) = min (min_len a) (min_len b)"
| "min_len (Rep mn mx r) = (if mn = 0 \<or> mx = Some 0 then 0 else min_len r)"
| "min_len WordB = 0"

text \<open>
  The strings a pattern describes, whatever surrounds them (an assertion describes the
  empty string).  Of a quantifier it keeps only whether one iteration at least is required.
\<close>

primrec lang :: "regex \<Rightarrow> bool \<Rightarrow> jsstring set" where
  "lang Eps ic = {[]}"
| "lang (Chars rs) ic = {[c] | c. class_match ic rs c}"
| "lang (Seq a b) ic = {u @ v | u v. u \<in> lang a ic \<and> v \<in> lang b ic}"
| "lang (Alt a b) ic = lang a ic \<union> lang b ic"
| "lang (Rep mn mx r) ic =
     {concat us | us. set us \<subseteq> lang r ic \<and> (us \<noteq> [] \<or> mn = 0 \<or> mx = Some 0)}"
| "lang WordB ic = {[]}"

section \<open>Entity detector\<close>

text \<open>
  An \<open>EntityType\<close> is, at run time, a string; the six members of the enumeration are the
  keys of \<open>PATTERNS\<close> and of the consistency maps.
\<close>

type_synonym EntityType = jsstring

definition PERSON :: EntityType where "PERSON = str ''PERSON''"
definition EMAIL_ADDRESS :: EntityType where "EMAIL_ADDRESS = str ''EMAIL_ADDRESS''"
definition PHONE_NUMBER :: EntityType where "PHONE_NUMBER = str ''PHONE_NUMBER''"
definition IBAN_CODE :: EntityType where "IBAN_CODE = str ''IBAN_CODE''"
definition FISCAL_CODE :: EntityType where "FISCAL_CODE = str ''FISCAL_CODE''"
definition CREDIT_CARD :: EntityType where "CREDIT_CARD = str ''CREDIT_CARD''"

definition ENTITY_TYPES :: "EntityType list" where
  "ENTITY_TYPES = [PERSON, EMAIL_ADDRESS, PHONE_NUMBER, IBAN_CODE, FISCAL_CODE, CREDIT_CARD]"

definition CHUNK_SIZE :: nat where
  "CHUNK_SIZE = 80000"

record DetectedEntity =
  etype :: EntityType
  evalue :: jsstring
  estart :: nat
  eend :: nat

text \<open>A \<open>RegExp\<close> object with the \<open>g\<close> flag: its pattern and whether it has the \<open>i\<close> flag.\<close>

record RegExp =
  source :: regex
  ignoreCase :: bool

definition email_local :: "(code_unit \<times> code_unit) list" where
  "email_local =
     [rg CHR ''a'' CHR ''z'', rg CHR ''A'' CHR ''Z'', rg CHR ''0'' CHR ''9'',
      ch CHR ''.'', ch CHR ''_'', ch CHR ''%'', ch CHR ''+'', ch CHR ''-'']"

definition email_domain :: "(code_unit \<times> code_unit) list" where
  "email_domain =
     [rg CHR ''a'' CHR ''z'', rg CHR ''A'' CHR ''Z'', rg CHR ''0'' CHR ''9'',
      ch CHR ''.'', ch CHR ''-'']"

definition ascii_letter :: "(code_unit \<times> code_unit) list" where
  "ascii_letter = [rg CHR ''a'' CHR ''z'', rg CHR ''A'' CHR ''Z'']"

definition upper :: "(code_unit \<times> code_unit) list" where
  "upper = [rg CHR ''A'' CHR ''Z'']"

definition upper_digit :: "(code_unit \<times> code_unit) list" where
  "upper_digit = [rg CHR ''A'' CHR ''Z'', rg CHR ''0'' CHR ''9'']"

text \<open>\<open>[a-z]\<close> and the six accented letters a-grave, e-grave, e-acute, i-grave, o-grave, u-grave.\<close>

definition lower_accented :: "(code_unit \<times> code_unit) list" where
  "lower_accented =
     [rg CHR ''a'' CHR ''z'', (224, 224), (232, 232), (233, 233), (236, 236), (242, 242),
      (249, 249)]"

text \<open>\<^verbatim>\<open>/[a-zA-Z0-9._%+-]+@[a-zA-Z0-9.-]+\.[a-zA-Z]{2,}/g\<close>\<close>

definition EMAIL_ADDRESS_re :: RegExp where
  "EMAIL_ADDRESS_re =
     \<lparr>source = seql [many1 (Chars email_local), lit CHR ''@'', many1 (Chars email_domain),
                       lit CHR ''.'', Rep 2 None (Chars ascii_letter)],
      ignoreCase = False\<rparr>"

text \<open>\<^verbatim>\<open>/(?:\+39\s?)?(?:3[0-9]{2}[\s.-]?[0-9]{6,7}|0[0-9]{1,3}[\s.-]?[0-9]{6,8})/g\<close>\<close>

definition PHONE_NUMBER_re :: RegExp where
  "PHONE_NUMBER_re =
     \<lparr>source = seql
        [opt (seql [lit CHR ''+'', lit CHR ''3'', lit CHR ''9'', opt (Chars white_space)]),
         Alt (seql [lit CHR ''3'', exactly 2 (Chars digit),
                    opt (Chars (white_space @ [ch CHR ''.'', ch CHR ''-''])),
                    Rep 6 (Some 7) (Chars digit)])
             (seql [lit CHR ''0'', Rep 1 (Some 3) (Chars digit),
                    opt (Chars (white_space @ [ch CHR ''.'', ch CHR ''-''])),
                    Rep 6 (Some 8) (Chars digit)])],
      ignoreCase = False\<rparr>"

text \<open>\<^verbatim>\<open>/[A-Z]{2}[0-9]{2}[A-Z0-9]{4}[0-9]{7}(?:[A-Z0-9]?){0,16}/gi\<close>\<close>

definition IBAN_CODE_re :: RegExp where
  "IBAN_CODE_re =
     \<lparr>source = seql [exactly 2 (Chars upper), exactly 2 (Chars digit), exactly 4 (Chars upper_digit),
                       exactly 7 (Chars digit), Rep 0 (Some 16) (opt (Chars upper_digit))],
      ignoreCase = True\<rparr>"

text \<open>\<^verbatim>\<open>/[A-Z]{6}[0-9]{2}[A-Z][0-9]{2}[A-Z][0-9]{3}[A-Z]/gi\<close>\<close>

definition FISCAL_CODE_re :: RegExp where
  "FISCAL_CODE_re =
     \<lparr>source = seql [exactly 6 (Chars upper), exactly 2 (Chars digit), Chars upper,
                       exactly 2 (Chars digit), Chars upper, exactly 3 (Chars digit), Chars upper],
      ignoreCase = True\<rparr>"

text \<open>\<^verbatim>\<open>/(?:\d{4}[\s-]?){3}\d{4}/g\<close>\<close>

definition CREDIT_CARD_re :: RegExp where
  "CREDIT_CARD_re =
     \<lparr>source = seql
        [exactly 3 (seql [exactly 4 (Chars digit), opt (Chars (white_space @ [ch CHR ''-'']))]),
         exactly 4 (Chars digit)],
      ignoreCase = False\<rparr>"

text \<open>\<^verbatim>\<open>/\b[A-Z][a-z......]+(?:\s+[A-Z][a-z......]+)+\b/g\<close> (the dots: the accented letters)\<close>

definition PERSON_re :: RegExp where
  "PERSON_re =
     \<lparr>source = seql
        [WordB, Chars upper, many1 (Chars lower_accented),
         many1 (seql [many1 (Chars white_space), Chars upper, many1 (Chars lower_accented)]),
         WordB],
      ignoreCase = False\<rparr>"

text \<open>
  The shape of a person name in the words of the specification: a capitalized word is an
  upper-case letter followed by one or more lower-case (possibly accented) letters; a name
  is two or more of them, separated by runs of white space.  A name between \<open>pre\<close> and
  \<open>post\<close> is maximal when no longer name is made of it and text that stands next to it.
\<close>

definition capitalized_word :: "jsstring \<Rightarrow> bool" where
  "capitalized_word w =
     (case w of [] \<Rightarrow> False
      | c # cs \<Rightarrow> in_class upper c \<and> cs \<noteq> [] \<and> list_all (in_class lower_accented) cs)"

definition white_run :: "jsstring \<Rightarrow> bool" where
  "white_run g = (g \<noteq> [] \<and> list_all (in_class white_space) g)"

definition person_shape :: "jsstring \<Rightarrow> bool" where
  "person_shape v =
     (\<exists>w ws. capitalized_word w \<and> ws \<noteq> [] \<and>
        list_all (\<lambda>(g, w'). white_run g \<and> capitalized_word w') ws \<and>
        v = w @ concat (map (\<lambda>(g, w'). g @ w') ws))"

definition maximal_person :: "jsstring \<Rightarrow> jsstring \<Rightarrow> jsstring \<Rightarrow> bool" where
  "maximal_person pre v post =
     (person_shape v \<and>
      \<not> (\<exists>x y. pre = x @ y \<and> y \<noteq> [] \<and> person_shape (y @ v)) \<and>
      \<not> (\<exists>x y. post = x @ y \<and> x \<noteq> [] \<and> person_shape (v @ x)))"

text \<open>The entries of \<open>PATTERNS\<close>, in the order \<open>Object.entries\<close> lists them.\<close>

definition PATTERNS :: "(EntityType \<times> RegExp) list" where
  "PATTERNS =
     [(EMAIL_ADDRESS, EMAIL_ADDRESS_re), (PHONE_NUMBER, PHONE_NUMBER_re),
      (IBAN_CODE, IBAN_CODE_re), (FISCAL_CODE, FISCAL_CODE_re),
      (CREDIT_CARD, CREDIT_CARD_re), (PERSON, PERSON_re)]"

text \<open>
  \<open>pattern.exec(text)\<close> with the \<open>g\<close> flag, from \<open>lastIndex\<close>: the first position from there on
  at which the pattern matches, with the end of the match the matcher prefers; \<open>None\<close> is
  \<open>null\<close>.  A match moves \<open>lastIndex\<close> to its end.
\<close>

function exec :: "RegExp \<Rightarrow> jsstring \<Rightarrow> nat \<Rightarrow> (nat \<times> nat) option" where
  "exec pattern text lastIndex =
     (if lastIndex > length text then None
      else case match_ends (source pattern) (ignoreCase pattern) text lastIndex of
             [] \<Rightarrow> exec pattern text (Suc lastIndex)
           | e # _ \<Rightarrow> Some (lastIndex, e))"
  by pat_completeness auto
termination
  by (relation "measure (\<lambda>(pattern, text, lastIndex). Suc (length text) - lastIndex)") auto

declare exec.simps [simp del]

text \<open>
  The inner loop of \<open>detectEntities\<close>: \<open>while ((match = pattern.exec(text)) !== null)\<close>,
  pushing one entity per match.  The loop runs for ever on a pattern that matches the empty
  string (\<open>lastIndex\<close> stays where it is), so it is a partial function: \<open>None\<close> is not
  returning.
\<close>

partial_function (option) match_loop ::
  "EntityType \<Rightarrow> RegExp \<Rightarrow> jsstring \<Rightarrow> nat \<Rightarrow> DetectedEntity list \<Rightarrow> DetectedEntity list option"
  where
  "match_loop ty pattern text lastIndex entities =
     (case exec pattern text lastIndex of
        None \<Rightarrow> Some entities
      | Some (index, e) \<Rightarrow>
          match_loop ty pattern text e
            (entities @ [\<lparr>etype = ty, evalue = substring text index e, estart = index, eend = e\<rparr>]))"

declare match_loop.simps [code]

text \<open>The outer loop, over the entries of \<open>PATTERNS\<close>; \<open>lastIndex\<close> is reset to 0 first.\<close>

fun pattern_loop ::
  "(EntityType \<times> RegExp) list \<Rightarrow> jsstring \<Rightarrow> DetectedEntity list \<Rightarrow> DetectedEntity list option"
  where
  "pattern_loop [] text entities = Some entities"
| "pattern_loop ((ty, pattern) # rest) text entities =
     (case match_loop ty pattern text 0 entities of
        None \<Rightarrow> None
      | Some entities' \<Rightarrow> pattern_loop rest text entities')"

text \<open>
  \<open>Array.prototype.sort\<close> with a comparator: a stable sort; an element goes before the
  first one it does not compare greater than.
\<close>

fun insort_cmp :: "('a \<Rightarrow> 'a \<Rightarrow> int) \<Rightarrow> 'a \<Rightarrow> 'a list \<Rightarrow> 'a list" where
  "insort_cmp cmp x [] = [x]"
| "insort_cmp cmp x (y # ys) = (if cmp x y \<le> 0 then x # y # ys else y # insort_cmp cmp x ys)"

definition sort_cmp :: "('a \<Rightarrow> 'a \<Rightarrow> int) \<Rightarrow> 'a list \<Rightarrow> 'a list" where
  "sort_cmp cmp xs = foldr (insort_cmp cmp) xs []"

definition detectEntities :: "jsstring \<Rightarrow> DetectedEntity list option" where
  "detectEntities text =
     (case pattern_loop PATTERNS text [] of
        None \<Rightarrow> None
      | Some entities \<Rightarrow> Some (sort_cmp (\<lambda>a b. int (estart b) - int (estart a)) entities))"

section \<open>Pseudonym generator\<close>

text \<open>
  The faker library and \<open>Math.random\<close> are random sources outside the repository.  They
  are a parameter of the model: each generator takes the state \<open>'r\<close> of the random source
  and returns the generated string with the next state.  \<open>random_floor n\<close> stands for
  \<open>Math.floor(Math.random() * n)\<close>.
\<close>

record 'r faker =
  person_fullName :: "'r \<Rightarrow> jsstring \<times> 'r"
  internet_email :: "'r \<Rightarrow> jsstring \<times> 'r"
  phone_number :: "'r \<Rightarrow> jsstring \<times> 'r"
  finance_iban_IT :: "'r \<Rightarrow> jsstring \<times> 'r"
  finance_creditCardNumber :: "'r \<Rightarrow> jsstring \<times> 'r"
  random_floor :: "nat \<Rightarrow> 'r \<Rightarrow> nat \<times> 'r"

text \<open>
  The module state: \<open>entityMaps\<close>, an object holding one \<open>Map\<close> per key, and the state of the
  random source.
\<close>

record 'r session =
  entityMaps :: "EntityType \<rightharpoonup> (jsstring \<rightharpoonup> jsstring)"
  rng :: 'r

definition init_session :: "'r \<Rightarrow> 'r session" where
  "init_session r =
     \<lparr>entityMaps =
        [PERSON \<mapsto> Map.empty, EMAIL_ADDRESS \<mapsto> Map.empty, PHONE_NUMBER \<mapsto> Map.empty,
         IBAN_CODE \<mapsto> Map.empty, FISCAL_CODE \<mapsto> Map.empty, CREDIT_CARD \<mapsto> Map.empty],
      rng = r\<rparr>"

text \<open>The object \<open>entityMaps\<close> never gains or loses a key: its keys are the six types.\<close>

definition session_ok :: "'r session \<Rightarrow> bool" where
  "session_ok s = (dom (entityMaps s) = set ENTITY_TYPES)"

datatype error = TypeError

text \<open>\<open>Number.prototype.toString\<close> on a natural number.\<close>

fun decimal :: "nat \<Rightarrow> jsstring" where
  "decimal n = (if n < 10 then [of_nat (48 + n)] else decimal (n div 10) @ [of_nat (48 + n mod 10)])"

declare decimal.simps [simp del]

definition letters :: jsstring where
  "letters = str ''ABCDEFGHIJKLMNOPQRSTUVWXYZ''"

definition randomLetter :: "'r faker \<Rightarrow> 'r \<Rightarrow> jsstring \<times> 'r" where
  "randomLetter lib r =
     (case random_floor lib (length letters) r of
        (k, r') \<Rightarrow> ((if k < length letters then [letters ! k] else str ''A''), r'))"

definition randomDigit :: "'r faker \<Rightarrow> 'r \<Rightarrow> jsstring \<times> 'r" where
  "randomDigit lib r = (case random_floor lib 10 r of (k, r') \<Rightarrow> (decimal k, r'))"

text \<open>The operands of a chain of \<open>+\<close> are evaluated from left to right.\<close>

fun concat_calls :: "('r \<Rightarrow> jsstring \<times> 'r) list \<Rightarrow> 'r \<Rightarrow> jsstring \<times> 'r" where
  "concat_calls [] r = ([], r)"
| "concat_calls (g # gs) r =
     (case g r of (a, r') \<Rightarrow> (case concat_calls gs r' of (b, r'') \<Rightarrow> (a @ b, r'')))"

definition generateFakeFiscalCode :: "'r faker \<Rightarrow> 'r \<Rightarrow> jsstring \<times> 'r" where
  "generateFakeFiscalCode lib =
     concat_calls
       [randomLetter lib, randomLetter lib, randomLetter lib, randomLetter lib,
        randomLetter lib, randomLetter lib, randomDigit lib, randomDigit lib,
        randomLetter lib, randomDigit lib, randomDigit lib, randomLetter lib,
        randomDigit lib, randomDigit lib, randomDigit lib, randomLetter lib]"

definition generateFakeValue :: "'r faker \<Rightarrow> EntityType \<Rightarrow> 'r \<Rightarrow> jsstring \<times> 'r" where
  "generateFakeValue lib ty r =
     (if ty = PERSON then person_fullName lib r
      else if ty = EMAIL_ADDRESS then internet_email lib r
      else if ty = PHONE_NUMBER then phone_number lib r
      else if ty = IBAN_CODE then finance_iban_IT lib r
      else if ty = FISCAL_CODE then generateFakeFiscalCode lib r
      else if ty = CREDIT_CARD then finance_creditCardNumber lib r
      else (str ''[REDACTED_'' @ ty @ str '']'', r))"

text \<open>
  \<open>getFakeValue\<close>.  \<open>entityMaps[type]\<close> of a key the object does not have is \<open>undefined\<close> (or,
  for a name of \<open>Object.prototype\<close>, a value with no \<open>has\<close> method), and the call
  \<open>map.has(originalValue)\<close> on it throws a \<open>TypeError\<close>.
\<close>

definition getFakeValue ::
  "'r faker \<Rightarrow> EntityType \<Rightarrow> jsstring \<Rightarrow> 'r session \<Rightarrow> error + (jsstring \<times> 'r session)" where
  "getFakeValue lib ty originalValue s =
     (case entityMaps s ty of
        None \<Rightarrow> Inl TypeError
      | Some m \<Rightarrow>
          (case m originalValue of
             Some fake \<Rightarrow> Inr (fake, s)
           | None \<Rightarrow>
               (case generateFakeValue lib ty (rng s) of
                  (fake, r') \<Rightarrow>
                    Inr (fake,
                         s\<lparr>entityMaps := (entityMaps s)(ty \<mapsto> m(originalValue \<mapsto> fake)),
                           rng := r'\<rparr>))))"

text \<open>\<open>resetMaps\<close>: every \<open>Map\<close> of the object is cleared.\<close>

definition resetMaps :: "'r session \<Rightarrow> 'r session" where
  "resetMaps s = s\<lparr>entityMaps := (\<lambda>ty. map_option (\<lambda>m. Map.empty) (entityMaps s ty))\<rparr>"

section \<open>Anonymization engine\<close>

text \<open>
  The loop of \<open>anonymizeText\<close> over the detected entities.  A result is \<open>Inl\<close> when
  \<open>getFakeValue\<close> throws.
\<close>

fun replace_loop ::
  "'r faker \<Rightarrow> DetectedEntity list \<Rightarrow> jsstring \<Rightarrow> 'r session \<Rightarrow> error + (jsstring \<times> 'r session)"
  where
  "replace_loop lib [] result s = Inr (result, s)"
| "replace_loop lib (entity # rest) result s =
     (case getFakeValue lib (etype entity) (evalue entity) s of
        Inl e \<Rightarrow> Inl e
      | Inr (fakeValue, s') \<Rightarrow>
          replace_loop lib rest
            (substring result 0 (estart entity) @ fakeValue @ substring_from result (eend entity))
            s')"

text \<open>\<open>None\<close>: the call does not return (the detector does not).\<close>

definition anonymizeText ::
  "'r faker \<Rightarrow> jsstring \<Rightarrow> 'r session \<Rightarrow> (error + (jsstring \<times> 'r session)) option" where
  "anonymizeText lib text s =
     (case detectEntities text of
        None \<Rightarrow> None
      | Some entities \<Rightarrow> Some (replace_loop lib entities text s))"

text \<open>
  The first loop of \<open>anonymizeTextChunked\<close>:
  \<open>for (let i = 0; i < text.length; i += CHUNK_SIZE) chunks.push(text.substring(i, i + CHUNK_SIZE))\<close>.
\<close>

function chunk_loop :: "jsstring \<Rightarrow> nat \<Rightarrow> jsstring list \<Rightarrow> jsstring list" where
  "chunk_loop text i chunks =
     (if i < length text
      then chunk_loop text (i + CHUNK_SIZE) (chunks @ [substring text i (i + CHUNK_SIZE)])
      else chunks)"
  by pat_completeness auto
termination
  by (relation "measure (\<lambda>(text, i, chunks). length text - i)") (auto simp: CHUNK_SIZE_def)

declare chunk_loop.simps [simp del]

text \<open>The second loop: each chunk goes through \<open>anonymizeText\<close>, in order.\<close>

fun anonymize_loop ::
  "'r faker \<Rightarrow> jsstring list \<Rightarrow> jsstring list \<Rightarrow> 'r session \<Rightarrow>
     (error + (jsstring list \<times> 'r session)) option" where
  "anonymize_loop lib [] anonymizedChunks s = Some (Inr (anonymizedChunks, s))"
| "anonymize_loop lib (chunk # rest) anonymizedChunks s =
     (case anonymizeText lib chunk s of
        None \<Rightarrow> None
      | Some (Inl e) \<Rightarrow> Some (Inl e)
      | Some (Inr (out, s')) \<Rightarrow> anonymize_loop lib rest (anonymizedChunks @ [out]) s')"

text \<open>\<open>anonymizeTextChunked\<close>; the progress lines written to the console are left out.\<close>

definition anonymizeTextChunked ::
  "'r faker \<Rightarrow> jsstring \<Rightarrow> 'r session \<Rightarrow> (error + (jsstring \<times> 'r session)) option" where
  "anonymizeTextChunked lib text s =
     (case anonymize_loop lib (chunk_loop text 0 []) [] s of
        None \<Rightarrow> None
      | Some (Inl e) \<Rightarrow> Some (Inl e)
      | Some (Inr (anonymizedChunks, s')) \<Rightarrow> Some (Inr (concat anonymizedChunks, s')))"

text \<open>
  The chunked path as the specification words it: the whole-text path on each chunk in
  turn, the outputs listed in the order of the chunks.  The chunks share the session: each
  starts from the one the chunk before it left.
\<close>

fun anonymize_each ::
  "'r faker \<Rightarrow> jsstring list \<Rightarrow> 'r session \<Rightarrow> (error + (jsstring list \<times> 'r session)) option" where
  "anonymize_each lib [] s = Some (Inr ([], s))"
| "anonymize_each lib (chunk # rest) s =
     (case anonymizeText lib chunk s of
        None \<Rightarrow> None
      | Some (Inl e) \<Rightarrow> Some (Inl e)
      | Some (Inr (out, s')) \<Rightarrow>
          (case anonymize_each lib rest s' of
             None \<Rightarrow> None
           | Some (Inl e) \<Rightarrow> Some (Inl e)
           | Some (Inr (outs, s'')) \<Rightarrow> Some (Inr (out # outs, s''))))"

text \<open>
  The structure of an anonymized text in the words of the specification.  \<open>resolve_all\<close>
  lists the values \<open>getFakeValue\<close> returns for the entities, in their order.  \<open>separate\<close>
  says that the spans, in the order of the list, lie one to the left of the other, below
  \<open>bound\<close>.  \<open>weave\<close> is the text rebuilt around such spans: what stands right of the first
  span as it was, the replacement of the span, and left of it the text woven from the
  remaining spans.
\<close>

fun resolve_all ::
  "'r faker \<Rightarrow> DetectedEntity list \<Rightarrow> 'r session \<Rightarrow> error + (jsstring list \<times> 'r session)" where
  "resolve_all lib [] s = Inr ([], s)"
| "resolve_all lib (entity # rest) s =
     (case getFakeValue lib (etype entity) (evalue entity) s of
        Inl err \<Rightarrow> Inl err
      | Inr (fakeValue, s') \<Rightarrow>
          (case resolve_all lib rest s' of
             Inl err \<Rightarrow> Inl err
           | Inr (fakes, s'') \<Rightarrow> Inr (fakeValue # fakes, s'')))"

fun weave :: "jsstring \<Rightarrow> (DetectedEntity \<times> jsstring) list \<Rightarrow> jsstring" where
  "weave text [] = text"
| "weave text ((entity, fakeValue) # rest) =
     weave (take (estart entity) text) rest @ fakeValue @ drop (eend entity) text"

fun separate :: "nat \<Rightarrow> DetectedEntity list \<Rightarrow> bool" where
  "separate bound [] = True"
| "separate bound (entity # rest) =
     (estart entity \<le> eend entity \<and> eend entity \<le> bound \<and> separate (estart entity) rest)"

text \<open>
  A deterministic stand-in for the random sources, to run the model on concrete inputs: the
  state is a counter, and every generated string ends in it.
\<close>

definition stub_faker :: "nat faker" where
  "stub_faker =
     \<lparr>person_fullName = (\<lambda>n. (str ''Anna Bianchi '' @ decimal n, Suc n)),
      internet_email = (\<lambda>n. (str ''anna'' @ decimal n @ str ''@example.org'', Suc n)),
      phone_number = (\<lambda>n. (str ''06555010'' @ decimal n, Suc n)),
      finance_iban_IT = (\<lambda>n. (str ''IT07H030020328084519766587'' @ decimal n, Suc n)),
      finance_creditCardNumber = (\<lambda>n. (str ''6011-6212-3456-789'' @ decimal n, Suc n)),
      random_floor = (\<lambda>k n. (n mod k, Suc n))\<rparr>"

section \<open>Properties of the matcher\<close>

text \<open>
  Every end position the matcher reports lies between the start position and the end of
  the input (so the guard of \<open>repeat_next\<close> only ever cuts the iterations that consumed
  nothing), and is at least \<open>min_len\<close> code units after the start.
\<close>

lemma repeat_bounds:
  assumes f: "\<And>i j. i \<le> n \<Longrightarrow> j \<in> set (f i) \<Longrightarrow> i \<le> j \<and> j \<le> n"
  shows "i \<le> n \<Longrightarrow> j \<in> set (repeat_matcher f n mn mx i) \<Longrightarrow> i \<le> j \<and> j \<le> n"
    and "i \<le> n \<Longrightarrow> i' \<in> set (f i) \<Longrightarrow> j \<in> set (repeat_next f n mn mx i i')
         \<Longrightarrow> i' \<le> j \<and> j \<le> n"
  using f
proof (induction f n mn mx i and f n mn mx i i' arbitrary: j and j
    rule: repeat_matcher_repeat_next.induct)
  case (1 f n mn mx i)
  note f = "1.prems"(3)
  show ?case
  proof (cases "mx = Some 0 \<or> j = i")
    case True
    with "1.prems"(1,2) show ?thesis
      by (auto simp: repeat_matcher.simps)
  next
    case False
    with "1.prems"(2) obtain i' where i': "i' \<in> set (f i)"
      and j: "j \<in> set (repeat_next f n mn mx i i')"
      by (auto simp: repeat_matcher.simps split: if_splits)
    have nz: "mx \<noteq> Some 0"
      using False by simp
    have "i' \<le> j \<and> j \<le> n"
    proof (cases "mn \<noteq> 0")
      case True
      from "1.IH"(1) [OF nz True i' "1.prems"(1) i' j f] show ?thesis .
    next
      case False
      from "1.IH"(2) [OF nz False i' "1.prems"(1) i' j f] show ?thesis .
    qed
    moreover have "i \<le> i'"
      using f [OF "1.prems"(1) i'] by simp
    ultimately show ?thesis by simp
  qed
next
  case (2 f n mn mx i i')
  note f = "2.prems"(4)
  have i'n: "i' \<le> n"
    using f [OF "2.prems"(1,2)] by simp
  show ?case
  proof (cases "mn = 0 \<and> \<not> (i < i' \<and> i' \<le> n)")
    case True
    with "2.prems"(3) show ?thesis
      by (simp add: repeat_next.simps)
  next
    case False
    then have "repeat_next f n mn mx i i' =
                 repeat_matcher f n (mn - 1) (map_option (\<lambda>m. m - 1) mx) i'"
      by (subst repeat_next.simps) (simp only: if_False)
    with "2.prems"(3)
    have "j \<in> set (repeat_matcher f n (mn - 1) (map_option (\<lambda>m. m - 1) mx) i')"
      by simp
    from "2.IH" [OF False i'n this f] show ?thesis .
  qed
qed

lemma repeat_progress:
  assumes f: "\<And>i j. i \<le> n \<Longrightarrow> j \<in> set (f i) \<Longrightarrow> i + k \<le> j \<and> j \<le> n"
    and mn: "mn \<noteq> 0" and mx: "mx \<noteq> Some 0"
    and i: "i \<le> n" and j: "j \<in> set (repeat_matcher f n mn mx i)"
  shows "i + k \<le> j \<and> j \<le> n"
proof -
  have f': "\<And>i j. i \<le> n \<Longrightarrow> j \<in> set (f i) \<Longrightarrow> i \<le> j \<and> j \<le> n"
    using f by fastforce
  from j mn mx obtain i' where i': "i' \<in> set (f i)"
    and j': "j \<in> set (repeat_next f n mn mx i i')"
    by (auto simp: repeat_matcher.simps)
  have "i' \<le> j \<and> j \<le> n"
    using repeat_bounds(2) [OF f' i i' j'] by simp
  moreover have "i + k \<le> i'"
    using f [OF i i'] by simp
  ultimately show ?thesis by simp
qed

lemma match_ends_bounds:
  "i \<le> length inp \<Longrightarrow> j \<in> set (match_ends r ic inp i) \<Longrightarrow>
     i + min_len r \<le> j \<and> j \<le> length inp"
proof (induction r arbitrary: i j)
  case Eps
  then show ?case by simp
next
  case (Chars rs)
  then show ?case by (auto split: if_splits)
next
  case (Seq a b)
  from Seq.prems(2) obtain m where m: "m \<in> set (match_ends a ic inp i)"
    and j: "j \<in> set (match_ends b ic inp m)"
    by auto
  from Seq.IH(1) [OF Seq.prems(1) m] have 1: "i + min_len a \<le> m" and 2: "m \<le> length inp"
    by simp_all
  from Seq.IH(2) [OF 2 j] 1 show ?case
    by simp
next
  case (Alt a b)
  from Alt.prems(2) consider
      (left) "j \<in> set (match_ends a ic inp i)"
    | (right) "j \<in> set (match_ends b ic inp i)"
    by auto
  then show ?case
  proof cases
    case left
    from Alt.IH(1) [OF Alt.prems(1) left] show ?thesis
      by (simp add: min_def)
  next
    case right
    from Alt.IH(2) [OF Alt.prems(1) right] show ?thesis
      by (simp add: min_def)
  qed
next
  case (Rep mn mx r)
  have j: "j \<in> set (repeat_matcher (match_ends r ic inp) (length inp) mn mx i)"
    using Rep.prems(2) by simp
  have f: "\<And>i j. i \<le> length inp \<Longrightarrow> j \<in> set (match_ends r ic inp i)
              \<Longrightarrow> i + min_len r \<le> j \<and> j \<le> length inp"
    using Rep.IH by blast
  then have f': "\<And>i j. i \<le> length inp \<Longrightarrow> j \<in> set (match_ends r ic inp i)
              \<Longrightarrow> i \<le> j \<and> j \<le> length inp"
    by fastforce
  show ?case
  proof (cases "mn = 0 \<or> mx = Some 0")
    case True
    with repeat_bounds(1) [OF f' Rep.prems(1) j] show ?thesis
      by simp
  next
    case False
    with repeat_progress [OF f _ _ Rep.prems(1) j] show ?thesis
      by simp
  qed
next
  case WordB
  then show ?case by (simp split: if_splits)
qed

text \<open>Every match the matcher reports is a string of the pattern's language.\<close>

lemma segment_split:
  assumes "i \<le> m" and "m \<le> j"
  shows "take (j - i) (drop i inp) = take (m - i) (drop i inp) @ take (j - m) (drop m inp)"
proof -
  from assms have "j - i = (m - i) + (j - m)"
    by simp
  then have "take (j - i) (drop i inp) =
      take (m - i) (drop i inp) @ take (j - m) (drop (m - i) (drop i inp))"
    by (simp only: take_add)
  with assms(1) show ?thesis
    by simp
qed

lemma repeat_lang:
  assumes f: "\<And>i j. i \<le> length inp \<Longrightarrow> j \<in> set (f i) \<Longrightarrow>
                i \<le> j \<and> j \<le> length inp \<and> take (j - i) (drop i inp) \<in> A"
  shows "i \<le> length inp \<Longrightarrow> j \<in> set (repeat_matcher f (length inp) mn mx i) \<Longrightarrow>
           \<exists>us. set us \<subseteq> A \<and> take (j - i) (drop i inp) = concat us \<and>
             (us \<noteq> [] \<or> mn = 0 \<or> mx = Some 0)"
    and "i \<le> length inp \<Longrightarrow> i' \<in> set (f i) \<Longrightarrow>
           j \<in> set (repeat_next f (length inp) mn mx i i') \<Longrightarrow>
           \<exists>us. set us \<subseteq> A \<and> take (j - i') (drop i' inp) = concat us"
  using f
proof (induction f "length inp" mn mx i and f "length inp" mn mx i i' arbitrary: j and j
    rule: repeat_matcher_repeat_next.induct)
  case (1 f mn mx i)
  note f = "1.prems"(3)
  have f': "\<And>i j. i \<le> length inp \<Longrightarrow> j \<in> set (f i) \<Longrightarrow> i \<le> j \<and> j \<le> length inp"
    using f by blast
  show ?case
  proof (cases "mx = Some 0")
    case True
    with "1.prems"(2) have "j = i"
      by (simp add: repeat_matcher.simps)
    with True have "set [] \<subseteq> A \<and> take (j - i) (drop i inp) = concat [] \<and>
        ([] \<noteq> [] \<or> mn = 0 \<or> mx = Some 0)"
      by simp
    then show ?thesis
      by blast
  next
    case nz: False
    from nz "1.prems"(2) consider
        (stop) "mn = 0" "j = i"
      | (iter) i' where "i' \<in> set (f i)" "j \<in> set (repeat_next f (length inp) mn mx i i')"
      by (auto simp: repeat_matcher.simps split: if_splits)
    then show ?thesis
    proof cases
      case stop
      then have "set [] \<subseteq> A \<and> take (j - i) (drop i inp) = concat [] \<and>
          ([] \<noteq> [] \<or> mn = 0 \<or> mx = Some 0)"
        by simp
      then show ?thesis
        by blast
    next
      case iter
      have "\<exists>us. set us \<subseteq> A \<and> take (j - i') (drop i' inp) = concat us"
      proof (cases "mn \<noteq> 0")
        case True
        from "1.hyps"(1) [OF nz True iter(1) "1.prems"(1) iter(1) iter(2) f] show ?thesis .
      next
        case False
        from "1.hyps"(2) [OF nz False iter(1) "1.prems"(1) iter(1) iter(2) f] show ?thesis .
      qed
      then obtain us where us: "set us \<subseteq> A" "take (j - i') (drop i' inp) = concat us"
        by blast
      from f [OF "1.prems"(1) iter(1)] have a: "i \<le> i'" "i' \<le> length inp"
        "take (i' - i) (drop i inp) \<in> A"
        by simp_all
      from repeat_bounds(2) [OF f' "1.prems"(1) iter(1) iter(2)] have b: "i' \<le> j"
        by simp
      from segment_split [OF a(1) b, of inp] us(2)
      have "take (j - i) (drop i inp) = concat (take (i' - i) (drop i inp) # us)"
        by simp
      moreover from a(3) us(1) have "set (take (i' - i) (drop i inp) # us) \<subseteq> A"
        by simp
      ultimately show ?thesis
        by blast
    qed
  qed
next
  case (2 f mn mx i i')
  note f = "2.prems"(4)
  from f [OF "2.prems"(1,2)] have i'n: "i' \<le> length inp"
    by simp
  show ?case
  proof (cases "mn = 0 \<and> \<not> (i < i' \<and> i' \<le> length inp)")
    case True
    with "2.prems"(3) show ?thesis
      by (simp add: repeat_next.simps)
  next
    case False
    then have "repeat_next f (length inp) mn mx i i' =
                 repeat_matcher f (length inp) (mn - 1) (map_option (\<lambda>m. m - 1) mx) i'"
      by (subst repeat_next.simps) (simp only: if_False)
    with "2.prems"(3)
    have "j \<in> set (repeat_matcher f (length inp) (mn - 1) (map_option (\<lambda>m. m - 1) mx) i')"
      by simp
    from "2.hyps" [OF False i'n this f] show ?thesis
      by blast
  qed
qed

lemma match_ends_lang:
  "i \<le> length inp \<Longrightarrow> j \<in> set (match_ends r ic inp i) \<Longrightarrow>
     take (j - i) (drop i inp) \<in> lang r ic"
proof (induction r arbitrary: i j)
  case Eps
  then show ?case by simp
next
  case (Chars rs)
  then have "j = Suc i" "i < length inp" "class_match ic rs (inp ! i)"
    by (auto split: if_splits)
  then show ?case
    by (auto simp: take_Suc_conv_app_nth Cons_nth_drop_Suc [symmetric])
next
  case (Seq a b)
  from Seq.prems(2) obtain m where m: "m \<in> set (match_ends a ic inp i)"
    and j: "j \<in> set (match_ends b ic inp m)"
    by auto
  from match_ends_bounds [OF Seq.prems(1) m] have 1: "i \<le> m" "m \<le> length inp"
    by simp_all
  from match_ends_bounds [OF 1(2) j] have 2: "m \<le> j"
    by simp
  from Seq.IH(1) [OF Seq.prems(1) m] Seq.IH(2) [OF 1(2) j] segment_split [OF 1(1) 2, of inp]
  show ?case
    by auto
next
  case (Alt a b)
  from Alt.prems(2) consider
      (left) "j \<in> set (match_ends a ic inp i)"
    | (right) "j \<in> set (match_ends b ic inp i)"
    by auto
  then show ?case
  proof cases
    case left
    from Alt.IH(1) [OF Alt.prems(1) left] show ?thesis
      by simp
  next
    case right
    from Alt.IH(2) [OF Alt.prems(1) right] show ?thesis
      by simp
  qed
next
  case (Rep mn mx r)
  have j: "j \<in> set (repeat_matcher (match_ends r ic inp) (length inp) mn mx i)"
    using Rep.prems(2) by simp
  have f: "\<And>i j. i \<le> length inp \<Longrightarrow> j \<in> set (match_ends r ic inp i) \<Longrightarrow>
              i \<le> j \<and> j \<le> length inp \<and> take (j - i) (drop i inp) \<in> lang r ic"
  proof -
    fix i j assume a: "i \<le> length inp" "j \<in> set (match_ends r ic inp i)"
    from match_ends_bounds [OF a] Rep.IH [OF a]
    show "i \<le> j \<and> j \<le> length inp \<and> take (j - i) (drop i inp) \<in> lang r ic"
      by simp
  qed
  from repeat_lang(1) [of inp "match_ends r ic inp" "lang r ic", OF f Rep.prems(1) j]
  show ?case
    by auto
next
  case WordB
  then show ?case by (simp split: if_splits)
qed

section \<open>Properties of the entity detector\<close>

text \<open>
  Every pattern of \<open>PATTERNS\<close> consumes at least one code unit, so every \<open>exec\<close> that
  matches moves \<open>lastIndex\<close> forward and the loops of \<open>detectEntities\<close> return.
\<close>

lemma exec_Some:
  "exec p text li = Some (s, e) \<Longrightarrow>
     li \<le> s \<and> s \<le> length text \<and> e \<in> set (match_ends (source p) (ignoreCase p) text s)"
proof (induction p "text" li rule: exec.induct)
  case (1 pat inp lastIndex)
  show ?case
  proof (cases "match_ends (source pat) (ignoreCase pat) inp lastIndex")
    case Nil
    with "1.prems" have le: "\<not> length inp < lastIndex"
      and nxt: "exec pat inp (Suc lastIndex) = Some (s, e)"
      by (auto simp: exec.simps [of pat inp lastIndex] split: if_splits)
    from "1.IH" [OF le Nil nxt] show ?thesis
      by simp
  next
    case (Cons e' rest)
    with "1.prems" show ?thesis
      by (auto simp: exec.simps [of pat inp lastIndex] split: if_splits)
  qed
qed

lemma exec_span:
  assumes "1 \<le> min_len (source p)" and "exec p text li = Some (s, e)"
  shows "li \<le> s \<and> s < e \<and> e \<le> length text \<and>
         e \<in> set (match_ends (source p) (ignoreCase p) text s)"
proof -
  from exec_Some [OF assms(2)] have 1: "li \<le> s" and 2: "s \<le> length text"
    and 3: "e \<in> set (match_ends (source p) (ignoreCase p) text s)"
    by simp_all
  from match_ends_bounds [OF 2 3] assms(1) 1 3 show ?thesis
    by simp
qed

lemma match_loop_returns:
  assumes p: "1 \<le> min_len (source p)"
  shows "\<exists>found. match_loop ty p text li acc = Some (acc @ found) \<and>
           (\<forall>e \<in> set found. etype e = ty \<and> estart e < eend e \<and> eend e \<le> length text \<and>
              evalue e = substring text (estart e) (eend e) \<and>
              eend e \<in> set (match_ends (source p) (ignoreCase p) text (estart e)))"
proof (induction "Suc (length text) - li" arbitrary: li acc rule: less_induct)
  case less
  show ?case
  proof (cases "exec p text li")
    case None
    then have "match_loop ty p text li acc = Some (acc @ [])"
      by (subst match_loop.simps) simp
    then show ?thesis
      by (metis empty_iff list.set(1))
  next
    case (Some m)
    obtain s e where m: "m = (s, e)"
      by (cases m)
    from exec_span [OF p Some [unfolded m]]
    have span: "li \<le> s" "s < e" "e \<le> length text"
      "e \<in> set (match_ends (source p) (ignoreCase p) text s)"
      by simp_all
    let ?ent = "\<lparr>etype = ty, evalue = substring text s e, estart = s, eend = e\<rparr>"
    have step: "match_loop ty p text li acc = match_loop ty p text e (acc @ [?ent])"
      using Some m by (subst match_loop.simps) simp
    have "Suc (length text) - e < Suc (length text) - li"
      using span by simp
    from less [OF this, of "acc @ [?ent]"] obtain found where
      f: "match_loop ty p text e (acc @ [?ent]) = Some ((acc @ [?ent]) @ found)"
      and a: "\<forall>e \<in> set found. etype e = ty \<and> estart e < eend e \<and> eend e \<le> length text \<and>
              evalue e = substring text (estart e) (eend e) \<and>
              eend e \<in> set (match_ends (source p) (ignoreCase p) text (estart e))"
      by blast
    have "match_loop ty p text li acc = Some (acc @ (?ent # found))"
      using step f by simp
    moreover have "\<forall>e \<in> set (?ent # found). etype e = ty \<and> estart e < eend e \<and>
              eend e \<le> length text \<and> evalue e = substring text (estart e) (eend e) \<and>
              eend e \<in> set (match_ends (source p) (ignoreCase p) text (estart e))"
      using a span by simp
    ultimately show ?thesis
      by blast
  qed
qed

lemma pattern_loop_returns:
  assumes "\<forall>(ty, p) \<in> set ps. 1 \<le> min_len (source p)"
  shows "\<exists>found. pattern_loop ps text acc = Some (acc @ found) \<and>
           (\<forall>e \<in> set found. \<exists>p. (etype e, p) \<in> set ps \<and>
              estart e < eend e \<and> eend e \<le> length text \<and>
              evalue e = substring text (estart e) (eend e) \<and>
              eend e \<in> set (match_ends (source p) (ignoreCase p) text (estart e)))"
  using assms
proof (induction ps arbitrary: acc)
  case Nil
  have "pattern_loop [] text acc = Some (acc @ [])"
    by simp
  then show ?case
    by (metis empty_iff list.set(1))
next
  case (Cons tp ps)
  obtain ty p where tp: "tp = (ty, p)"
    by (cases tp)
  from Cons.prems tp have p: "1 \<le> min_len (source p)"
    and rest: "\<forall>(ty, p) \<in> set ps. 1 \<le> min_len (source p)"
    by auto
  from match_loop_returns [OF p, of ty "text" 0 acc] obtain f1 where
    1: "match_loop ty p text 0 acc = Some (acc @ f1)"
    and a1: "\<forall>e \<in> set f1. etype e = ty \<and> estart e < eend e \<and> eend e \<le> length text \<and>
              evalue e = substring text (estart e) (eend e) \<and>
              eend e \<in> set (match_ends (source p) (ignoreCase p) text (estart e))"
    by blast
  from Cons.IH [OF rest, of "acc @ f1"] obtain f2 where
    2: "pattern_loop ps text (acc @ f1) = Some ((acc @ f1) @ f2)"
    and a2: "\<forall>e \<in> set f2. \<exists>p. (etype e, p) \<in> set ps \<and>
              estart e < eend e \<and> eend e \<le> length text \<and>
              evalue e = substring text (estart e) (eend e) \<and>
              eend e \<in> set (match_ends (source p) (ignoreCase p) text (estart e))"
    by blast
  have "pattern_loop (tp # ps) text acc = Some (acc @ (f1 @ f2))"
    using tp 1 2 by simp
  moreover have "\<forall>e \<in> set (f1 @ f2). \<exists>q. (etype e, q) \<in> set (tp # ps) \<and>
              estart e < eend e \<and> eend e \<le> length text \<and>
              evalue e = substring text (estart e) (eend e) \<and>
              eend e \<in> set (match_ends (source q) (ignoreCase q) text (estart e))"
  proof
    fix e assume "e \<in> set (f1 @ f2)"
    then consider (one) "e \<in> set f1" | (two) "e \<in> set f2"
      by auto
    then show "\<exists>q. (etype e, q) \<in> set (tp # ps) \<and>
              estart e < eend e \<and> eend e \<le> length text \<and>
              evalue e = substring text (estart e) (eend e) \<and>
              eend e \<in> set (match_ends (source q) (ignoreCase q) text (estart e))"
    proof cases
      case one
      with a1 tp show ?thesis
        by (intro exI [of _ p]) simp
    next
      case two
      with a2 obtain q where "(etype e, q) \<in> set ps \<and>
              estart e < eend e \<and> eend e \<le> length text \<and>
              evalue e = substring text (estart e) (eend e) \<and>
              eend e \<in> set (match_ends (source q) (ignoreCase q) text (estart e))"
        by blast
      then show ?thesis
        by (intro exI [of _ q]) simp
    qed
  qed
  ultimately show ?case
    by blast
qed

lemma PATTERNS_consume: "\<forall>(ty, p) \<in> set PATTERNS. 1 \<le> min_len (source p)"
  by code_simp

lemma set_insort_cmp: "set (insort_cmp cmp x ys) = insert x (set ys)"
  by (induction ys) auto

lemma set_sort_cmp: "set (sort_cmp cmp xs) = set xs"
  by (induction xs) (auto simp: sort_cmp_def set_insort_cmp)

lemma sorted_insort_start:
  "sorted_wrt (\<lambda>a b. estart b \<le> estart a) ys \<Longrightarrow>
     sorted_wrt (\<lambda>a b. estart b \<le> estart a)
       (insort_cmp (\<lambda>a b. int (estart b) - int (estart a)) x ys)"
  by (induction ys) (auto simp: set_insort_cmp)

lemma sorted_sort_start:
  "sorted_wrt (\<lambda>a b. estart b \<le> estart a)
     (sort_cmp (\<lambda>a b. int (estart b) - int (estart a)) xs)"
  by (induction xs) (auto simp: sort_cmp_def sorted_insort_start)

lemma detectEntities_returns:
  "\<exists>found. pattern_loop PATTERNS text [] = Some found \<and>
     detectEntities text = Some (sort_cmp (\<lambda>a b. int (estart b) - int (estart a)) found) \<and>
     (\<forall>e \<in> set found. \<exists>p. (etype e, p) \<in> set PATTERNS \<and>
        estart e < eend e \<and> eend e \<le> length text \<and>
        evalue e = substring text (estart e) (eend e) \<and>
        eend e \<in> set (match_ends (source p) (ignoreCase p) text (estart e)))"
proof -
  from pattern_loop_returns [OF PATTERNS_consume, of "text" "[]"] obtain found where
    1: "pattern_loop PATTERNS text [] = Some found"
    and 2: "\<forall>e \<in> set found. \<exists>p. (etype e, p) \<in> set PATTERNS \<and>
        estart e < eend e \<and> eend e \<le> length text \<and>
        evalue e = substring text (estart e) (eend e) \<and>
        eend e \<in> set (match_ends (source p) (ignoreCase p) text (estart e))"
    by auto
  from 1 have "detectEntities text = Some (sort_cmp (\<lambda>a b. int (estart b) - int (estart a)) found)"
    by (simp add: detectEntities_def)
  with 1 2 show ?thesis
    by blast
qed

lemma detect_sample:
  "detectEntities (str ''Mario Rossi ha scritto a mario.rossi@example.com'') =
     Some [\<lparr>etype = EMAIL_ADDRESS, evalue = str ''mario.rossi@example.com'',
             estart = 25, eend = 48\<rparr>,
           \<lparr>etype = PERSON, evalue = str ''Mario Rossi'', estart = 0, eend = 11\<rparr>]"
  by code_simp

text \<open>
  Claim C3.  For every input, \<open>detectEntities\<close> returns, and the sequence it returns is in
  descending order of \<open>start\<close>: of any two entities the earlier has the greater or equal
  \<open>start\<close>, in particular of any two consecutive ones.
\<close>

theorem detectEntities_descending:
  "\<exists>entities. detectEntities text = Some entities \<and>
     sorted_wrt (\<lambda>a b. estart b \<le> estart a) entities \<and>
     (\<forall>i. Suc i < length entities \<longrightarrow> estart (entities ! Suc i) \<le> estart (entities ! i))"
proof -
  from detectEntities_returns [of "text"] obtain found where
    d: "detectEntities text = Some (sort_cmp (\<lambda>a b. int (estart b) - int (estart a)) found)"
    by blast
  let ?es = "sort_cmp (\<lambda>a b. int (estart b) - int (estart a)) found"
  have s: "sorted_wrt (\<lambda>a b. estart b \<le> estart a) ?es"
    by (rule sorted_sort_start)
  then have "\<forall>i. Suc i < length ?es \<longrightarrow> estart (?es ! Suc i) \<le> estart (?es ! i)"
    by (simp add: sorted_wrt_iff_nth_less)
  with d s show ?thesis
    by blast
qed

theorem detectEntities_descending_witness:
  "detectEntities (str ''Mario Rossi ha scritto a mario.rossi@example.com'') =
     Some [\<lparr>etype = EMAIL_ADDRESS, evalue = str ''mario.rossi@example.com'',
             estart = 25, eend = 48\<rparr>,
           \<lparr>etype = PERSON, evalue = str ''Mario Rossi'', estart = 0, eend = 11\<rparr>] \<and>
   (0::nat) \<le> 25"
proof -
  from detectEntities_descending [of "str ''Mario Rossi ha scritto a mario.rossi@example.com''"]
  obtain entities where
    d: "detectEntities (str ''Mario Rossi ha scritto a mario.rossi@example.com'') = Some entities"
    and c: "\<forall>i. Suc i < length entities \<longrightarrow> estart (entities ! Suc i) \<le> estart (entities ! i)"
    by blast
  from d have e: "entities =
     [\<lparr>etype = EMAIL_ADDRESS, evalue = str ''mario.rossi@example.com'', estart = 25, eend = 48\<rparr>,
      \<lparr>etype = PERSON, evalue = str ''Mario Rossi'', estart = 0, eend = 11\<rparr>]"
    by (simp add: detect_sample)
  from c have "Suc 0 < length entities \<longrightarrow> estart (entities ! Suc 0) \<le> estart (entities ! 0)"
    by blast
  with e have "(0::nat) \<le> 25"
    by simp
  with d e show ?thesis
    by simp
qed

text \<open>
  Claim C5.  For every input, \<open>detectEntities\<close> returns, and every entity it returns has
  \<open>start < end \<le> length text\<close> (and \<open>0 \<le> start\<close>, as offsets are natural numbers) and the
  value \<open>text.substring(start, end)\<close>, which is \<open>end - start\<close> code units of the text from \<open>start\<close>.
\<close>

theorem detectEntities_spans:
  "\<exists>entities. detectEntities text = Some entities \<and>
     (\<forall>e \<in> set entities.
        0 \<le> estart e \<and> estart e < eend e \<and> eend e \<le> length text \<and>
        evalue e = substring text (estart e) (eend e) \<and>
        evalue e = take (eend e - estart e) (drop (estart e) text))"
proof -
  from detectEntities_returns [of "text"] obtain found where
    d: "detectEntities text = Some (sort_cmp (\<lambda>a b. int (estart b) - int (estart a)) found)"
    and a: "\<forall>e \<in> set found. \<exists>p. (etype e, p) \<in> set PATTERNS \<and>
        estart e < eend e \<and> eend e \<le> length text \<and>
        evalue e = substring text (estart e) (eend e) \<and>
        eend e \<in> set (match_ends (source p) (ignoreCase p) text (estart e))"
    by blast
  have "0 \<le> estart e \<and> estart e < eend e \<and> eend e \<le> length text \<and>
        evalue e = substring text (estart e) (eend e) \<and>
        evalue e = take (eend e - estart e) (drop (estart e) text)"
    if "e \<in> set (sort_cmp (\<lambda>a b. int (estart b) - int (estart a)) found)" for e
  proof -
    from that have "e \<in> set found"
      by (simp add: set_sort_cmp)
    with a have b: "estart e < eend e" "eend e \<le> length text"
      "evalue e = substring text (estart e) (eend e)"
      by blast+
    from b(1,2) have "substring text (estart e) (eend e) =
        take (eend e - estart e) (drop (estart e) text)"
      by (simp add: substring_def Let_def min_def max_def)
    with b show ?thesis
      by simp
  qed
  with d show ?thesis
    by blast
qed

theorem detectEntities_spans_witness:
  "detectEntities (str ''Mario Rossi ha scritto a mario.rossi@example.com'') =
     Some [\<lparr>etype = EMAIL_ADDRESS, evalue = str ''mario.rossi@example.com'',
             estart = 25, eend = 48\<rparr>,
           \<lparr>etype = PERSON, evalue = str ''Mario Rossi'', estart = 0, eend = 11\<rparr>] \<and>
   (25::nat) < 48 \<and>
   48 \<le> length (str ''Mario Rossi ha scritto a mario.rossi@example.com'') \<and>
   str ''mario.rossi@example.com'' =
     substring (str ''Mario Rossi ha scritto a mario.rossi@example.com'') 25 48"
proof -
  let ?t = "str ''Mario Rossi ha scritto a mario.rossi@example.com''"
  let ?e = "\<lparr>etype = EMAIL_ADDRESS, evalue = str ''mario.rossi@example.com'',
             estart = 25, eend = 48\<rparr>"
  from detectEntities_spans [of ?t] obtain entities where
    d: "detectEntities ?t = Some entities"
    and c: "\<forall>e \<in> set entities. 0 \<le> estart e \<and> estart e < eend e \<and> eend e \<le> length ?t \<and>
        evalue e = substring ?t (estart e) (eend e) \<and>
        evalue e = take (eend e - estart e) (drop (estart e) ?t)"
    by blast
  from d have "?e \<in> set entities"
    by (auto simp: detect_sample)
  with c have "estart ?e < eend ?e \<and> eend ?e \<le> length ?t \<and>
        evalue ?e = substring ?t (estart ?e) (eend ?e)"
    by blast
  then have "(25::nat) < 48 \<and> 48 \<le> length ?t \<and> str ''mario.rossi@example.com'' = substring ?t 25 48"
    by simp
  then show ?thesis
    using detect_sample by simp
qed

lemma concat_singletons:
  assumes "set us \<subseteq> {[c] | c. P c}"
  shows "list_all P (concat us) \<and> (us = [] \<or> concat us \<noteq> [])"
  using assms by (induction us) auto

lemma lang_many1_chars:
  assumes "v \<in> lang (many1 (Chars rs)) False"
  shows "v \<noteq> [] \<and> list_all (in_class rs) v"
proof -
  from assms obtain us where us: "set us \<subseteq> {[c] | c. in_class rs c}" "us \<noteq> []" "v = concat us"
    by (auto simp: many1_def class_match_def)
  from concat_singletons [OF us(1)] us(2,3) show ?thesis
    by simp
qed

lemma lang_capitalized:
  assumes "v \<in> lang (Seq (Chars upper) (many1 (Chars lower_accented))) False"
  shows "capitalized_word v"
proof -
  from assms obtain c t where c: "in_class upper c"
    and t: "t \<in> lang (many1 (Chars lower_accented)) False" and v: "v = c # t"
    by (auto simp: class_match_def)
  from lang_many1_chars [OF t] c v show ?thesis
    by (simp add: capitalized_word_def)
qed

lemma lang_group:
  assumes "g \<in> lang (seql [many1 (Chars white_space), Chars upper,
                             many1 (Chars lower_accented)]) False"
  shows "\<exists>sp w. white_run sp \<and> capitalized_word w \<and> g = sp @ w"
proof -
  from assms have "g \<in> {u @ v | u v. u \<in> lang (many1 (Chars white_space)) False \<and>
      v \<in> lang (Seq (Chars upper) (many1 (Chars lower_accented))) False}"
    by (simp only: seql.simps lang.simps)
  then obtain sp w where sp: "sp \<in> lang (many1 (Chars white_space)) False"
    and w: "w \<in> lang (Seq (Chars upper) (many1 (Chars lower_accented))) False"
    and g: "g = sp @ w"
    by blast
  from lang_many1_chars [OF sp] have "white_run sp"
    by (simp add: white_run_def)
  with lang_capitalized [OF w] g show ?thesis
    by blast
qed

lemma lang_groups:
  assumes "set us \<subseteq> lang (seql [many1 (Chars white_space), Chars upper,
                                   many1 (Chars lower_accented)]) False"
  shows "\<exists>ws. length ws = length us \<and>
           list_all (\<lambda>(g, w). white_run g \<and> capitalized_word w) ws \<and>
           concat us = concat (map (\<lambda>(g, w). g @ w) ws)"
  using assms
proof (induction us)
  case Nil
  have "length [] = length ([]::jsstring list) \<and>
        list_all (\<lambda>(g, w). white_run g \<and> capitalized_word w) [] \<and>
        concat ([]::jsstring list) = concat (map (\<lambda>(g, w). g @ w) [])"
    by simp
  then show ?case
    by blast
next
  case (Cons u us)
  from Cons.prems have u: "u \<in> lang (seql [many1 (Chars white_space), Chars upper,
                             many1 (Chars lower_accented)]) False"
    and rest: "set us \<subseteq> lang (seql [many1 (Chars white_space), Chars upper,
                                   many1 (Chars lower_accented)]) False"
    by simp_all
  from lang_group [OF u] obtain sp w where
    1: "white_run sp" "capitalized_word w" "u = sp @ w"
    by blast
  from Cons.IH [OF rest] obtain ws where
    2: "length ws = length us" "list_all (\<lambda>(g, w). white_run g \<and> capitalized_word w) ws"
    "concat us = concat (map (\<lambda>(g, w). g @ w) ws)"
    by blast
  from 1 2 have "length ((sp, w) # ws) = length (u # us) \<and>
        list_all (\<lambda>(g, w). white_run g \<and> capitalized_word w) ((sp, w) # ws) \<and>
        concat (u # us) = concat (map (\<lambda>(g, w). g @ w) ((sp, w) # ws))"
    by simp
  then show ?case
    by blast
qed

lemma lang_person:
  assumes "v \<in> lang (source PERSON_re) False"
  shows "\<exists>w ws. capitalized_word w \<and> ws \<noteq> [] \<and>
           list_all (\<lambda>(g, w'). white_run g \<and> capitalized_word w') ws \<and>
           v = w @ concat (map (\<lambda>(g, w'). g @ w') ws)"
proof -
  let ?group = "seql [many1 (Chars white_space), Chars upper, many1 (Chars lower_accented)]"
  from assms obtain c t r where c: "c \<in> lang (Chars upper) False"
    and t: "t \<in> lang (many1 (Chars lower_accented)) False"
    and r: "r \<in> lang (many1 ?group) False"
    and v: "v = c @ t @ r"
    by (auto simp: PERSON_re_def)
  from c t have "c @ t \<in> lang (Seq (Chars upper) (many1 (Chars lower_accented))) False"
    by auto
  then have w: "capitalized_word (c @ t)"
    by (rule lang_capitalized)
  from r obtain us where us: "set us \<subseteq> lang ?group False" "us \<noteq> []" "r = concat us"
    unfolding many1_def by auto
  from lang_groups [OF us(1)] obtain ws where
    ws: "length ws = length us" "list_all (\<lambda>(g, w). white_run g \<and> capitalized_word w) ws"
    "concat us = concat (map (\<lambda>(g, w). g @ w) ws)"
    by blast
  from ws(1) us(2) have "ws \<noteq> []"
    by auto
  with w ws(2,3) us(3) v show ?thesis
    by (intro exI [of _ "c @ t"] exI [of _ ws]) simp
qed

lemma PERSON_pattern:
  assumes "(PERSON, p) \<in> set PATTERNS"
  shows "p = PERSON_re"
proof -
  have "PERSON \<noteq> EMAIL_ADDRESS" "PERSON \<noteq> PHONE_NUMBER" "PERSON \<noteq> IBAN_CODE"
    "PERSON \<noteq> FISCAL_CODE" "PERSON \<noteq> CREDIT_CARD"
    by (simp_all add: PERSON_def EMAIL_ADDRESS_def PHONE_NUMBER_def IBAN_CODE_def
        FISCAL_CODE_def CREDIT_CARD_def str_def)
  with assms show ?thesis
    by (auto simp: PATTERNS_def)
qed

lemma PERSON_no_flag: "ignoreCase PERSON_re = False"
  by (simp add: PERSON_re_def)

lemma person_entities_shape:
  "\<exists>entities. detectEntities text = Some entities \<and>
     (\<forall>e \<in> set entities. etype e = PERSON \<longrightarrow>
        (\<exists>w ws. capitalized_word w \<and> ws \<noteq> [] \<and>
           list_all (\<lambda>(g, w'). white_run g \<and> capitalized_word w') ws \<and>
           evalue e = w @ concat (map (\<lambda>(g, w'). g @ w') ws)))"
proof -
  from detectEntities_returns [of "text"] obtain found where
    d: "detectEntities text = Some (sort_cmp (\<lambda>a b. int (estart b) - int (estart a)) found)"
    and a: "\<forall>e \<in> set found. \<exists>p. (etype e, p) \<in> set PATTERNS \<and>
        estart e < eend e \<and> eend e \<le> length text \<and>
        evalue e = substring text (estart e) (eend e) \<and>
        eend e \<in> set (match_ends (source p) (ignoreCase p) text (estart e))"
    by blast
  have "\<exists>w ws. capitalized_word w \<and> ws \<noteq> [] \<and>
           list_all (\<lambda>(g, w'). white_run g \<and> capitalized_word w') ws \<and>
           evalue e = w @ concat (map (\<lambda>(g, w'). g @ w') ws)"
    if e: "e \<in> set (sort_cmp (\<lambda>a b. int (estart b) - int (estart a)) found)"
      and ty: "etype e = PERSON" for e
  proof -
    from e have "e \<in> set found"
      by (simp add: set_sort_cmp)
    with a obtain p where p: "(etype e, p) \<in> set PATTERNS"
      and b: "estart e < eend e" "eend e \<le> length text"
        "evalue e = substring text (estart e) (eend e)"
        "eend e \<in> set (match_ends (source p) (ignoreCase p) text (estart e))"
      by blast
    from p ty have "p = PERSON_re"
      using PERSON_pattern by simp
    with b(4) have m: "eend e \<in> set (match_ends (source PERSON_re) False text (estart e))"
      by (simp add: PERSON_no_flag)
    from b(1,2) have s: "estart e \<le> length text"
      by simp
    from b(1,2) have "substring text (estart e) (eend e) =
        take (eend e - estart e) (drop (estart e) text)"
      by (simp add: substring_def Let_def min_def max_def)
    with match_ends_lang [OF s m] b(3) have "evalue e \<in> lang (source PERSON_re) False"
      by simp
    then show ?thesis
      by (rule lang_person)
  qed
  with d show ?thesis
    by blast
qed

text \<open>
  Where the matcher succeeds, the first end position it reports is the one the greedy
  quantifiers reach.  For a maximal name that starts and ends at a word boundary this is
  the end of the name: each run of letters and of white space is followed by a code unit
  outside its class, and no further group matches after the last word.
\<close>

lemma upper_not_lower: "in_class upper c \<Longrightarrow> \<not> in_class lower_accented c"
  by (auto simp: upper_def lower_accented_def rg_def word_le_nat_alt)

lemma upper_not_space: "in_class upper c \<Longrightarrow> \<not> in_class white_space c"
  by (auto simp: upper_def white_space_def rg_def word_le_nat_alt)

lemma space_not_lower: "in_class white_space c \<Longrightarrow> \<not> in_class lower_accented c"
  by (auto simp: lower_accented_def white_space_def rg_def word_le_nat_alt)

lemma match_ends_Seq_head:
  assumes "match_ends a ic inp i = m # r1" and "match_ends b ic inp m = k # r2"
  shows "\<exists>r. match_ends (Seq a b) ic inp i = k # r"
  using assms by simp

lemma repeat_chars_head:
  assumes "inp = a @ cs @ b" and "list_all (in_class rs) cs"
    and "b = [] \<or> \<not> in_class rs (hd b)"
  shows "\<exists>r. repeat_matcher (match_ends (Chars rs) False inp) (length inp) 0 None (length a) =
           (length a + length cs) # r"
  using assms
proof (induction cs arbitrary: a)
  case Nil
  then have "match_ends (Chars rs) False inp (length a) = []"
    by (cases b) (auto simp: class_match_def nth_append)
  then show ?case
    by (subst repeat_matcher.simps) (simp del: match_ends.simps)
next
  case (Cons c cs)
  from Cons.prems have c: "match_ends (Chars rs) False inp (length a) = [Suc (length a)]"
    by (simp add: class_match_def nth_append)
  from Cons.prems have n: "Suc (length a) \<le> length inp"
    by simp
  from Cons.prems have "inp = (a @ [c]) @ cs @ b" and "list_all (in_class rs) cs"
    by simp_all
  from Cons.IH [OF this Cons.prems(3)] obtain r where
    r: "repeat_matcher (match_ends (Chars rs) False inp) (length inp) 0 None (Suc (length a)) =
          (length a + length (c # cs)) # r"
    by (auto simp del: match_ends.simps)
  have "repeat_next (match_ends (Chars rs) False inp) (length inp) 0 None (length a) (Suc (length a)) =
      repeat_matcher (match_ends (Chars rs) False inp) (length inp) 0 None (Suc (length a))"
    using n by (subst repeat_next.simps) (simp del: match_ends.simps)
  with c r show ?case
    by (subst repeat_matcher.simps) (simp del: match_ends.simps)
qed

lemma many1_chars_head:
  assumes "inp = a @ cs @ b" and "cs \<noteq> []" and "list_all (in_class rs) cs"
    and "b = [] \<or> \<not> in_class rs (hd b)"
  shows "\<exists>r. match_ends (many1 (Chars rs)) False inp (length a) = (length a + length cs) # r"
proof -
  from assms(2) obtain c cs' where cs: "cs = c # cs'"
    by (cases cs) auto
  from assms(1,3) cs have c: "match_ends (Chars rs) False inp (length a) = [Suc (length a)]"
    by (simp add: class_match_def nth_append)
  from assms(1,3) cs have "inp = (a @ [c]) @ cs' @ b" and "list_all (in_class rs) cs'"
    by simp_all
  from repeat_chars_head [OF this assms(4)] cs obtain r where
    r: "repeat_matcher (match_ends (Chars rs) False inp) (length inp) 0 None (Suc (length a)) =
          (length a + length cs) # r"
    by (auto simp del: match_ends.simps)
  have step: "repeat_matcher (match_ends (Chars rs) False inp) (length inp) 1 None (length a) =
      repeat_next (match_ends (Chars rs) False inp) (length inp) 1 None (length a) (Suc (length a))"
    using c by (subst repeat_matcher.simps) (simp del: match_ends.simps)
  have "repeat_next (match_ends (Chars rs) False inp) (length inp) 1 None (length a) (Suc (length a)) =
      repeat_matcher (match_ends (Chars rs) False inp) (length inp) 0 None (Suc (length a))"
    by (subst repeat_next.simps) (simp del: match_ends.simps)
  with step r have "\<exists>r. repeat_matcher (match_ends (Chars rs) False inp) (length inp) 1 None (length a) =
      (length a + length cs) # r"
    by (simp del: match_ends.simps)
  then show ?thesis
    unfolding many1_def match_ends.simps(5) .
qed

lemma word_head:
  assumes "inp = a @ w @ b" and "capitalized_word w"
    and "b = [] \<or> \<not> in_class lower_accented (hd b)"
  shows "\<exists>r. match_ends (Seq (Chars upper) (many1 (Chars lower_accented))) False inp (length a) =
           (length a + length w) # r"
proof -
  from assms(2) obtain c cs where w: "w = c # cs" and c: "in_class upper c"
    and cs: "cs \<noteq> []" "list_all (in_class lower_accented) cs"
    by (cases w) (auto simp: capitalized_word_def)
  from assms(1) w c have 1: "match_ends (Chars upper) False inp (length a) = [Suc (length a)]"
    by (simp add: class_match_def nth_append)
  from assms(1) w have "inp = (a @ [c]) @ cs @ b"
    by simp
  from many1_chars_head [OF this cs assms(3)] w obtain r where
    2: "match_ends (many1 (Chars lower_accented)) False inp (Suc (length a)) =
          (length a + length w) # r"
    by auto
  from match_ends_Seq_head [OF 1 2] show ?thesis .
qed

lemma group_head:
  assumes "inp = a @ g @ w @ b" and "white_run g" and "capitalized_word w"
    and "b = [] \<or> \<not> in_class lower_accented (hd b)"
  shows "\<exists>r. match_ends (seql [many1 (Chars white_space), Chars upper,
                 many1 (Chars lower_accented)]) False inp (length a) =
           (length a + length g + length w) # r"
proof -
  from assms(3) have "w \<noteq> []" "in_class upper (hd w)"
    by (cases w; simp add: capitalized_word_def)+
  then have "w @ b = [] \<or> \<not> in_class white_space (hd (w @ b))"
    by (simp add: upper_not_space)
  moreover from assms(1) have "inp = a @ g @ (w @ b)"
    by simp
  moreover from assms(2) have "g \<noteq> []" "list_all (in_class white_space) g"
    by (simp_all add: white_run_def)
  ultimately obtain r1 where
    1: "match_ends (many1 (Chars white_space)) False inp (length a) = (length a + length g) # r1"
    using many1_chars_head by blast
  from assms(1) have "inp = (a @ g) @ w @ b"
    by simp
  from word_head [OF this assms(3,4)] obtain r2 where
    2: "match_ends (Seq (Chars upper) (many1 (Chars lower_accented))) False inp (length a + length g) =
          (length a + length g + length w) # r2"
    by auto
  from match_ends_Seq_head [OF 1 2] show ?thesis
    by simp
qed

lemma groups_head:
  assumes "inp = a @ concat (map (\<lambda>(g, w). g @ w) ws) @ b"
    and "list_all (\<lambda>(g, w). white_run g \<and> capitalized_word w) ws"
    and "b = [] \<or> \<not> in_class lower_accented (hd b)"
    and "match_ends (seql [many1 (Chars white_space), Chars upper,
           many1 (Chars lower_accented)]) False inp
           (length a + length (concat (map (\<lambda>(g, w). g @ w) ws))) = []"
  shows "\<exists>r. repeat_matcher
           (match_ends (seql [many1 (Chars white_space), Chars upper,
              many1 (Chars lower_accented)]) False inp) (length inp) 0 None (length a) =
           (length a + length (concat (map (\<lambda>(g, w). g @ w) ws))) # r"
  using assms(1,2,4)
proof (induction ws arbitrary: a)
  case Nil
  then show ?case
    by (subst repeat_matcher.simps) (simp del: match_ends.simps)
next
  case (Cons gw ws)
  let ?G = "seql [many1 (Chars white_space), Chars upper, many1 (Chars lower_accented)]"
  let ?rest = "concat (map (\<lambda>(g, w). g @ w) ws)"
  obtain g w where gw: "gw = (g, w)"
    by (cases gw)
  from Cons.prems(2) gw have g: "white_run g" and w: "capitalized_word w"
    and ok: "list_all (\<lambda>(g, w). white_run g \<and> capitalized_word w) ws"
    by simp_all
  have b': "?rest @ b = [] \<or> \<not> in_class lower_accented (hd (?rest @ b))"
  proof (cases ws)
    case Nil
    with assms(3) show ?thesis by simp
  next
    case (Cons gw2 ws2)
    obtain g2 w2 where "gw2 = (g2, w2)"
      by (cases gw2)
    with ok Cons have "g2 \<noteq> []" "in_class white_space (hd g2)" "hd (?rest @ b) = hd g2"
      by (cases g2; simp add: white_run_def)+
    then show ?thesis
      by (simp add: space_not_lower)
  qed
  from Cons.prems(1) gw have inp: "inp = a @ g @ w @ (?rest @ b)"
    by simp
  from group_head [OF inp g w b'] obtain r1 where
    f: "match_ends ?G False inp (length a) = (length a + length g + length w) # r1"
    by blast
  from g have "g \<noteq> []"
    by (simp add: white_run_def)
  with inp have guard: "length a < length a + length g + length w"
    "length a + length g + length w \<le> length inp"
    by simp_all
  have nxt: "repeat_next (match_ends ?G False inp) (length inp) 0 None (length a)
        (length a + length g + length w) =
      repeat_matcher (match_ends ?G False inp) (length inp) 0 None (length a + length g + length w)"
    using guard by (subst repeat_next.simps) (simp del: match_ends.simps)
  from Cons.prems(1) gw have inp2: "inp = (a @ g @ w) @ ?rest @ b"
    by simp
  from Cons.prems(3) gw have last: "match_ends ?G False inp (length (a @ g @ w) + length ?rest) = []"
    by (simp del: match_ends.simps add: add.assoc)
  from Cons.IH [OF inp2 ok last] obtain r2 where
    "repeat_matcher (match_ends ?G False inp) (length inp) 0 None (length (a @ g @ w)) =
       (length (a @ g @ w) + length ?rest) # r2"
    by blast
  then have "repeat_matcher (match_ends ?G False inp) (length inp) 0 None
       (length a + length g + length w) =
       (length a + length (concat (map (\<lambda>(g, w). g @ w) (gw # ws)))) # r2"
    using gw by (simp del: match_ends.simps add: add.assoc)
  with f nxt show ?case
    by (subst repeat_matcher.simps) (simp del: match_ends.simps)
qed

lemma person_head:
  assumes inp: "inp = pre @ v @ post"
    and v: "v = w @ concat (map (\<lambda>(g, w'). g @ w') ws)"
    and w: "capitalized_word w" and ws: "ws \<noteq> []"
    and ok: "list_all (\<lambda>(g, w'). white_run g \<and> capitalized_word w') ws"
    and b1: "word_boundary inp (length pre)"
    and b2: "word_boundary inp (length pre + length v)"
    and post: "post = [] \<or> \<not> in_class lower_accented (hd post)"
    and stop: "match_ends (seql [many1 (Chars white_space), Chars upper,
           many1 (Chars lower_accented)]) False inp (length pre + length v) = []"
  shows "\<exists>r. match_ends (source PERSON_re) False inp (length pre) = (length pre + length v) # r"
proof -
  let ?G = "seql [many1 (Chars white_space), Chars upper, many1 (Chars lower_accented)]"
  let ?glue = "\<lambda>(g, w'). g @ w'"
  from ws obtain gw rest where wsc: "ws = gw # rest"
    by (cases ws) auto
  obtain g1 w1 where gw: "gw = (g1, w1)"
    by (cases gw)
  from ok wsc gw have g1: "white_run g1" and w1: "capitalized_word w1"
    and okr: "list_all (\<lambda>(g, w'). white_run g \<and> capitalized_word w') rest"
    by simp_all
  from w obtain c cs where wc: "w = c # cs" and c: "in_class upper c"
    and cs: "cs \<noteq> []" "list_all (in_class lower_accented) cs"
    by (cases w) (auto simp: capitalized_word_def)
  let ?rest = "concat (map ?glue rest)"
  have full: "inp = pre @ (c # cs) @ g1 @ w1 @ ?rest @ post"
    using inp v wsc gw wc by simp
  \<comment> \<open>the last word boundary\<close>
  have h5: "match_ends WordB False inp (length pre + length v) = [length pre + length v]"
    using b2 by simp
  \<comment> \<open>the groups\<close>
  have restb: "?rest @ post = [] \<or> \<not> in_class lower_accented (hd (?rest @ post))"
  proof (cases rest)
    case Nil
    with post show ?thesis by simp
  next
    case (Cons gw2 ws2)
    obtain g2 w2 where "gw2 = (g2, w2)"
      by (cases gw2)
    with okr Cons have "g2 \<noteq> []" "in_class white_space (hd g2)" "hd (?rest @ post) = hd g2"
      by (cases g2; simp add: white_run_def)+
    then show ?thesis
      by (simp add: space_not_lower)
  qed
  from full have i1: "inp = (pre @ w) @ g1 @ w1 @ (?rest @ post)"
    using wc by simp
  from group_head [OF i1 g1 w1 restb] obtain r1 where
    f1: "match_ends ?G False inp (length pre + length w) =
           (length pre + length w + length g1 + length w1) # r1"
    by auto
  from full have i2: "inp = (pre @ w @ g1 @ w1) @ ?rest @ post"
    using wc by simp
  have e: "length (pre @ w @ g1 @ w1) + length ?rest = length pre + length v"
    using v wsc gw by simp
  from stop have stop': "match_ends ?G False inp (length (pre @ w @ g1 @ w1) + length ?rest) = []"
    unfolding e .
  from groups_head [OF i2 okr post stop'] obtain r2 where
    "repeat_matcher (match_ends ?G False inp) (length inp) 0 None (length (pre @ w @ g1 @ w1)) =
       (length (pre @ w @ g1 @ w1) + length ?rest) # r2"
    by blast
  then have r0: "repeat_matcher (match_ends ?G False inp) (length inp) 0 None
       (length pre + length w + length g1 + length w1) = (length pre + length v) # r2"
    unfolding e by (simp del: match_ends.simps add: add.assoc)
  have nxt: "repeat_next (match_ends ?G False inp) (length inp) 1 None (length pre + length w)
        (length pre + length w + length g1 + length w1) =
      repeat_matcher (match_ends ?G False inp) (length inp) 0 None
        (length pre + length w + length g1 + length w1)"
    by (subst repeat_next.simps) (simp del: match_ends.simps)
  have "\<exists>r. repeat_matcher (match_ends ?G False inp) (length inp) 1 None (length pre + length w) =
      (length pre + length v) # r"
    using f1 nxt r0 by (subst repeat_matcher.simps) (simp del: match_ends.simps)
  then obtain r4 where
    h4: "match_ends (many1 ?G) False inp (length pre + length w) = (length pre + length v) # r4"
    unfolding many1_def match_ends.simps(5) by blast
  \<comment> \<open>the first word\<close>
  have g1b: "(g1 @ w1 @ ?rest @ post) = [] \<or>
      \<not> in_class lower_accented (hd (g1 @ w1 @ ?rest @ post))"
    using g1 by (cases g1) (simp_all add: white_run_def space_not_lower)
  from full have i3: "inp = (pre @ [c]) @ cs @ (g1 @ w1 @ ?rest @ post)"
    by simp
  from many1_chars_head [OF i3 cs g1b] wc obtain r3 where
    h3: "match_ends (many1 (Chars lower_accented)) False inp (Suc (length pre)) =
           (length pre + length w) # r3"
    by auto
  from full c have h2: "match_ends (Chars upper) False inp (length pre) = [Suc (length pre)]"
    by (simp add: class_match_def nth_append)
  have h1: "match_ends WordB False inp (length pre) = [length pre]"
    using b1 by simp
  from match_ends_Seq_head [OF h4 h5] obtain q4 where
    s4: "match_ends (Seq (many1 ?G) WordB) False inp (length pre + length w) =
           (length pre + length v) # q4"
    by blast
  from match_ends_Seq_head [OF h3 s4] obtain q3 where
    s3: "match_ends (Seq (many1 (Chars lower_accented)) (Seq (many1 ?G) WordB)) False inp
           (Suc (length pre)) = (length pre + length v) # q3"
    by blast
  from match_ends_Seq_head [OF h2 s3] obtain q2 where
    s2: "match_ends (Seq (Chars upper) (Seq (many1 (Chars lower_accented))
           (Seq (many1 ?G) WordB))) False inp (length pre) = (length pre + length v) # q2"
    by blast
  from match_ends_Seq_head [OF h1 s2] obtain q1 where
    "match_ends (Seq WordB (Seq (Chars upper) (Seq (many1 (Chars lower_accented))
           (Seq (many1 ?G) WordB)))) False inp (length pre) = (length pre + length v) # q1"
    by blast
  then show ?thesis
    by (simp add: PERSON_re_def del: match_ends.simps)
qed

lemma capitalized_word_snoc:
  assumes "capitalized_word w" and "in_class lower_accented c"
  shows "capitalized_word (w @ [c])"
  using assms by (cases w) (auto simp: capitalized_word_def)

lemma person_shape_snoc:
  assumes "person_shape v" and "in_class lower_accented c"
  shows "person_shape (v @ [c])"
proof -
  from assms(1) obtain w ws where w: "capitalized_word w" and ws: "ws \<noteq> []"
    and ok: "list_all (\<lambda>(g, w'). white_run g \<and> capitalized_word w') ws"
    and v: "v = w @ concat (map (\<lambda>(g, w'). g @ w') ws)"
    unfolding person_shape_def by blast
  from ws obtain ws' gw where s: "ws = ws' @ [gw]"
    by (cases ws rule: rev_cases) auto
  obtain g w' where gw: "gw = (g, w')"
    by (cases gw)
  let ?ws = "ws' @ [(g, w' @ [c])]"
  from ok s gw assms(2) have "list_all (\<lambda>(g, w'). white_run g \<and> capitalized_word w') ?ws"
    by (simp add: capitalized_word_snoc)
  moreover from v s gw have "v @ [c] = w @ concat (map (\<lambda>(g, w'). g @ w') ?ws)"
    by simp
  moreover have "?ws \<noteq> []"
    by simp
  ultimately show ?thesis
    unfolding person_shape_def using w by blast
qed

lemma person_shape_group:
  assumes "person_shape v" and "white_run g" and "capitalized_word w'"
  shows "person_shape (v @ g @ w')"
proof -
  from assms(1) obtain w ws where w: "capitalized_word w" and ws: "ws \<noteq> []"
    and ok: "list_all (\<lambda>(g, w'). white_run g \<and> capitalized_word w') ws"
    and v: "v = w @ concat (map (\<lambda>(g, w'). g @ w') ws)"
    unfolding person_shape_def by blast
  let ?ws = "ws @ [(g, w')]"
  from ok assms(2,3) have "list_all (\<lambda>(g, w'). white_run g \<and> capitalized_word w') ?ws"
    by simp
  moreover from v have "v @ g @ w' = w @ concat (map (\<lambda>(g, w'). g @ w') ?ws)"
    by simp
  moreover have "?ws \<noteq> []"
    by simp
  ultimately show ?thesis
    unfolding person_shape_def using w by blast
qed

lemma maximal_next_not_lower:
  assumes "maximal_person pre v post"
  shows "post = [] \<or> \<not> in_class lower_accented (hd post)"
proof (cases post)
  case Nil
  then show ?thesis by simp
next
  case (Cons c p)
  have "\<not> in_class lower_accented c"
  proof
    assume "in_class lower_accented c"
    with assms have "person_shape (v @ [c])"
      by (simp add: maximal_person_def person_shape_snoc)
    moreover have "post = [c] @ p" "[c] \<noteq> []"
      using Cons by simp_all
    ultimately show False
      using assms unfolding maximal_person_def by blast
  qed
  with Cons show ?thesis
    by simp
qed

lemma maximal_no_group:
  assumes "maximal_person pre v post"
  shows "match_ends (seql [many1 (Chars white_space), Chars upper,
           many1 (Chars lower_accented)]) False (pre @ v @ post) (length pre + length v) = []"
proof (cases "match_ends (seql [many1 (Chars white_space), Chars upper,
           many1 (Chars lower_accented)]) False (pre @ v @ post) (length pre + length v)")
  case Nil
  then show ?thesis .
next
  case (Cons e r)
  let ?G = "seql [many1 (Chars white_space), Chars upper, many1 (Chars lower_accented)]"
  let ?inp = "pre @ v @ post"
  let ?E = "length pre + length v"
  have i: "?E \<le> length ?inp"
    by simp
  from Cons have e: "e \<in> set (match_ends ?G False ?inp ?E)"
    by simp
  from match_ends_lang [OF i e] have "take (e - ?E) (drop ?E ?inp) \<in> lang ?G False" .
  then have x: "take (e - ?E) post \<in> lang ?G False"
    by simp
  from lang_group [OF x] obtain sp w where sp: "white_run sp" and w: "capitalized_word w"
    and eq: "take (e - ?E) post = sp @ w"
    by blast
  from sp eq have "take (e - ?E) post \<noteq> []"
    by (simp add: white_run_def)
  moreover have "post = take (e - ?E) post @ drop (e - ?E) post"
    by simp
  moreover from assms sp w eq have "person_shape (v @ take (e - ?E) post)"
    by (simp add: maximal_person_def person_shape_group)
  ultimately show ?thesis
    using assms unfolding maximal_person_def by blast
qed

lemma upper_position:
  assumes "capitalized_word w"
    and "list_all (\<lambda>(g, w'). white_run g \<and> capitalized_word w') ws"
    and "u = w @ concat (map (\<lambda>(g, w'). g @ w') ws)"
    and "k < length u" and "0 < k" and "in_class upper (u ! k)"
  shows "\<exists>ws1 g w' ws2. ws = ws1 @ (g, w') # ws2 \<and>
           take k u = w @ concat (map (\<lambda>(g, w'). g @ w') ws1) @ g"
  using assms
proof (induction ws arbitrary: w u k)
  case Nil
  from Nil.prems(1) obtain c cs where w: "w = c # cs" and cs: "list_all (in_class lower_accented) cs"
    by (cases w) (auto simp: capitalized_word_def)
  from Nil.prems(3,4,5) w have "u ! k = cs ! (k - 1)" "k - 1 < length cs"
    by (simp_all add: nth_Cons')
  with cs have "in_class lower_accented (u ! k)"
    by (simp add: list_all_length)
  with Nil.prems(6) show ?case
    using upper_not_lower by blast
next
  case (Cons gw ws)
  obtain g w1 where gw: "gw = (g, w1)"
    by (cases gw)
  from Cons.prems(2) gw have g: "white_run g" and w1: "capitalized_word w1"
    and ok: "list_all (\<lambda>(g, w'). white_run g \<and> capitalized_word w') ws"
    by simp_all
  let ?u' = "w1 @ concat (map (\<lambda>(g, w'). g @ w') ws)"
  from Cons.prems(3) gw have u: "u = w @ g @ ?u'"
    by simp
  from Cons.prems(1) obtain c cs where w: "w = c # cs" and cs: "list_all (in_class lower_accented) cs"
    by (cases w) (auto simp: capitalized_word_def)
  consider (first) "k < length w" | (gap) "length w \<le> k" "k < length w + length g"
    | (here) "k = length w + length g" | (later) "length w + length g < k"
    by linarith
  then show ?case
  proof cases
    case first
    from first u have "u ! k = w ! k"
      by (simp only: nth_append if_True)
    moreover from w Cons.prems(5) have "w ! k = cs ! (k - 1)"
      by (simp add: nth_Cons')
    moreover from first w Cons.prems(5) have "k - 1 < length cs"
      by simp
    ultimately have "u ! k = cs ! (k - 1)" "k - 1 < length cs"
      by simp_all
    with cs have "in_class lower_accented (u ! k)"
      by (simp add: list_all_length)
    with Cons.prems(6) show ?thesis
      using upper_not_lower by blast
  next
    case gap
    then have kk: "k - length w < length g" and nk: "\<not> k < length w"
      by linarith+
    from u nk have "u ! k = (g @ ?u') ! (k - length w)"
      by (simp only: nth_append if_False)
    with kk have "u ! k = g ! (k - length w)"
      by (simp only: nth_append if_True)
    with kk g have "in_class white_space (u ! k)"
      by (simp add: white_run_def list_all_length)
    with Cons.prems(6) show ?thesis
      using upper_not_space by blast
  next
    case here
    with u have "take k u = w @ concat (map (\<lambda>(g, w'). g @ w') []) @ g"
      by simp
    moreover from gw have "gw # ws = [] @ (g, w1) # ws"
      by simp
    ultimately show ?thesis
      by blast
  next
    case later
    let ?k = "k - (length w + length g)"
    from later u Cons.prems(4) have k': "?k < length ?u'" "0 < ?k"
      by simp_all
    from u have u2: "u = (w @ g) @ ?u'"
      by simp
    from later have "\<not> k < length (w @ g)"
      by simp
    then have "u ! k = ?u' ! (k - length (w @ g))"
      unfolding u2 by (simp only: nth_append if_False)
    then have "u ! k = ?u' ! ?k"
      by simp
    with Cons.prems(6) have up: "in_class upper (?u' ! ?k)"
      by simp
    from Cons.IH [OF w1 ok refl k' up] obtain ws1 g2 w2 ws2 where
      1: "ws = ws1 @ (g2, w2) # ws2"
      and 2: "take ?k ?u' = w1 @ concat (map (\<lambda>(g, w'). g @ w') ws1) @ g2"
      by blast
    from later u have "take k u = w @ g @ take ?k ?u'"
      by simp
    with 2 have "take k u = w @ concat (map (\<lambda>(g, w'). g @ w') ((g, w1) # ws1)) @ g2"
      by simp
    moreover from 1 gw have "gw # ws = ((g, w1) # ws1) @ (g2, w2) # ws2"
      by simp
    ultimately show ?thesis
      by blast
  qed
qed

lemma maximal_no_overlap:
  assumes m: "maximal_person pre v post"
    and s0: "s0 < length pre"
    and e0: "e0 \<in> set (match_ends (source PERSON_re) False (pre @ v @ post) s0)"
  shows "e0 \<le> length pre"
proof (rule ccontr)
  assume "\<not> e0 \<le> length pre"
  then have over: "length pre < e0"
    by simp
  let ?inp = "pre @ v @ post"
  let ?u = "take (e0 - s0) (drop s0 ?inp)"
  let ?k = "length pre - s0"
  from s0 have i: "s0 \<le> length ?inp"
    by simp
  from match_ends_bounds [OF i e0] have b: "e0 \<le> length ?inp"
    by simp
  from match_ends_lang [OF i e0] have "?u \<in> lang (source PERSON_re) False" .
  from lang_person [OF this] obtain w ws where w: "capitalized_word w"
    and ok: "list_all (\<lambda>(g, w'). white_run g \<and> capitalized_word w') ws"
    and u: "?u = w @ concat (map (\<lambda>(g, w'). g @ w') ws)"
    by blast
  from m obtain wv wsv where wv: "capitalized_word wv" and wsv: "wsv \<noteq> []"
    and okv: "list_all (\<lambda>(g, w'). white_run g \<and> capitalized_word w') wsv"
    and v: "v = wv @ concat (map (\<lambda>(g, w'). g @ w') wsv)"
    unfolding maximal_person_def person_shape_def by blast
  from wv obtain c cs where wvc: "wv = c # cs" and c: "in_class upper c"
    by (cases wv) (auto simp: capitalized_word_def)
  from b s0 over have len: "length ?u = e0 - s0" and k: "?k < length ?u" "0 < ?k"
    by simp_all
  from over s0 have "?u ! ?k = drop s0 ?inp ! ?k"
    by (intro nth_take) simp
  also from i have "\<dots> = ?inp ! (s0 + ?k)"
    by (rule nth_drop)
  also from s0 have "s0 + ?k = length pre"
    by simp
  finally have "?u ! ?k = ?inp ! length pre" .
  with v wvc c have up: "in_class upper (?u ! ?k)"
    by (simp add: nth_append)
  from upper_position [OF w ok u k up] obtain ws1 g w' ws2 where
    1: "ws = ws1 @ (g, w') # ws2"
    and 2: "take ?k ?u = w @ concat (map (\<lambda>(g, w'). g @ w') ws1) @ g"
    by blast
  from over have mk: "min ?k (e0 - s0) = ?k"
    by simp
  from s0 have dr: "drop s0 ?inp = drop s0 pre @ v @ post"
    by simp
  have "take ?k ?u = take ?k (drop s0 ?inp)"
    unfolding take_take mk ..
  also have "\<dots> = drop s0 pre"
    unfolding dr by simp
  finally have y: "take ?k ?u = drop s0 pre" .
  from ok 1 have g: "white_run g"
    and ok1: "list_all (\<lambda>(g, w'). white_run g \<and> capitalized_word w') ws1"
    by simp_all
  let ?ws = "ws1 @ (g, wv) # wsv"
  from ok1 g wv okv have "list_all (\<lambda>(g, w'). white_run g \<and> capitalized_word w') ?ws"
    by simp
  moreover from 2 y v have "drop s0 pre @ v = w @ concat (map (\<lambda>(g, w'). g @ w') ?ws)"
    by simp
  moreover have "?ws \<noteq> []"
    by simp
  ultimately have "person_shape (drop s0 pre @ v)"
    unfolding person_shape_def using w by blast
  moreover have "pre = take s0 pre @ drop s0 pre"
    by simp
  moreover from s0 have "drop s0 pre \<noteq> []"
    by simp
  ultimately show False
    using m unfolding maximal_person_def by blast
qed

lemma exec_first:
  assumes "match_ends (source p) (ignoreCase p) text s = e # r"
    and "li \<le> s" and "s \<le> length text"
  shows "\<exists>s0 e0. exec p text li = Some (s0, e0) \<and> li \<le> s0 \<and> s0 \<le> s \<and> (s0 = s \<longrightarrow> e0 = e)"
  using assms(2)
proof (induction "s - li" arbitrary: li)
  case 0
  then have "li = s"
    by simp
  with assms(1,3) have "exec p text li = Some (s, e)"
    by (subst exec.simps) simp
  with \<open>li = s\<close> show ?case
    by simp
next
  case (Suc d)
  then have lt: "li < s"
    by simp
  with assms(3) have le: "\<not> length text < li"
    by simp
  show ?case
  proof (cases "match_ends (source p) (ignoreCase p) text li")
    case Nil
    with le have step: "exec p text li = exec p text (Suc li)"
      by (subst exec.simps) simp
    from Suc.hyps(2) lt have "d = s - Suc li" "Suc li \<le> s"
      by simp_all
    from Suc.hyps(1) [OF this] step show ?thesis
      by auto
  next
    case (Cons e' r')
    with le have "exec p text li = Some (li, e')"
      by (subst exec.simps) simp
    with lt show ?thesis
      by simp
  qed
qed

lemma match_loop_finds:
  assumes p: "1 \<le> min_len (source p)"
    and hd: "match_ends (source p) (ignoreCase p) text s = e # r"
    and free: "\<And>s0 e0. s0 < s \<Longrightarrow> e0 \<in> set (match_ends (source p) (ignoreCase p) text s0)
                 \<Longrightarrow> e0 \<le> s"
    and s: "s \<le> length text"
  shows "li \<le> s \<Longrightarrow>
         \<exists>found. match_loop ty p text li acc = Some found \<and>
           \<lparr>etype = ty, evalue = substring text s e, estart = s, eend = e\<rparr> \<in> set found"
proof (induction "s - li" arbitrary: li acc rule: less_induct)
  case less
  from exec_first [OF hd less.prems s] obtain s0 e0 where
    x: "exec p text li = Some (s0, e0)" and b: "li \<le> s0" "s0 \<le> s" "s0 = s \<longrightarrow> e0 = e"
    by blast
  from exec_span [OF p x] have span: "s0 < e0"
    "e0 \<in> set (match_ends (source p) (ignoreCase p) text s0)"
    by simp_all
  let ?ent = "\<lparr>etype = ty, evalue = substring text s0 e0, estart = s0, eend = e0\<rparr>"
  have step: "match_loop ty p text li acc = match_loop ty p text e0 (acc @ [?ent])"
    using x by (subst match_loop.simps) simp
  show ?case
  proof (cases "s0 = s")
    case True
    with b(3) have e: "e0 = e"
      by simp
    from match_loop_returns [OF p, of ty "text" e0 "acc @ [?ent]"] obtain found where
      "match_loop ty p text e0 (acc @ [?ent]) = Some ((acc @ [?ent]) @ found)"
      by blast
    with step True e show ?thesis
      by simp
  next
    case False
    with b(2) have lt: "s0 < s"
      by simp
    from free [OF lt span(2)] have le: "e0 \<le> s" .
    from span(1) b(1) le have "s - e0 < s - li"
      by simp
    from less.hyps [OF this le, of "acc @ [?ent]"] step show ?thesis
      by simp
  qed
qed

lemma pattern_loop_finds:
  assumes "\<forall>(ty, p) \<in> set ps. 1 \<le> min_len (source p)"
    and "(ty, p) \<in> set ps"
    and "\<And>acc. \<exists>found. match_loop ty p text 0 acc = Some found \<and> ent \<in> set found"
  shows "\<exists>found. pattern_loop ps text acc = Some found \<and> ent \<in> set found"
  using assms(1,2)
proof (induction ps arbitrary: acc)
  case Nil
  then show ?case by simp
next
  case (Cons tp ps)
  obtain ty' p' where tp: "tp = (ty', p')"
    by (cases tp)
  from Cons.prems(1) tp have p': "1 \<le> min_len (source p')"
    and rest: "\<forall>(ty, p) \<in> set ps. 1 \<le> min_len (source p)"
    by auto
  from match_loop_returns [OF p', of ty' "text" 0 acc] obtain f1 where
    1: "match_loop ty' p' text 0 acc = Some (acc @ f1)"
    by blast
  show ?case
  proof (cases "(ty, p) = (ty', p')")
    case True
    from assms(3) [of acc] True 1 have in1: "ent \<in> set (acc @ f1)"
      by auto
    from pattern_loop_returns [OF rest, of "text" "acc @ f1"] obtain f2 where
      "pattern_loop ps text (acc @ f1) = Some ((acc @ f1) @ f2)"
      by blast
    with tp 1 in1 show ?thesis
      by auto
  next
    case False
    with Cons.prems(2) tp have "(ty, p) \<in> set ps"
      by auto
    from Cons.IH [OF rest this, of "acc @ f1"] tp 1 show ?thesis
      by simp
  qed
qed

lemma person_detected:
  assumes m: "maximal_person pre v post"
    and b1: "word_boundary (pre @ v @ post) (length pre)"
    and b2: "word_boundary (pre @ v @ post) (length pre + length v)"
  shows "\<exists>entities. detectEntities (pre @ v @ post) = Some entities \<and>
           \<lparr>etype = PERSON, evalue = v, estart = length pre,
              eend = length pre + length v\<rparr> \<in> set entities"
proof -
  let ?inp = "pre @ v @ post"
  let ?ent = "\<lparr>etype = PERSON, evalue = v, estart = length pre, eend = length pre + length v\<rparr>"
  from m obtain w ws where w: "capitalized_word w" and ws: "ws \<noteq> []"
    and ok: "list_all (\<lambda>(g, w'). white_run g \<and> capitalized_word w') ws"
    and v: "v = w @ concat (map (\<lambda>(g, w'). g @ w') ws)"
    unfolding maximal_person_def person_shape_def by blast
  from person_head [OF refl v w ws ok b1 b2 maximal_next_not_lower [OF m] maximal_no_group [OF m]]
  obtain r where
    hd: "match_ends (source PERSON_re) (ignoreCase PERSON_re) ?inp (length pre) =
           (length pre + length v) # r"
    by (auto simp: PERSON_no_flag)
  have free: "e0 \<le> length pre"
    if "s0 < length pre" "e0 \<in> set (match_ends (source PERSON_re) (ignoreCase PERSON_re) ?inp s0)"
    for s0 e0
    using maximal_no_overlap [OF m that(1)] that(2) by (simp add: PERSON_no_flag)
  have p: "1 \<le> min_len (source PERSON_re)"
    using PATTERNS_consume by (simp add: PATTERNS_def)
  have sub: "substring ?inp (length pre) (length pre + length v) = v"
    by (simp add: substring_def)
  have loop: "\<exists>found. match_loop PERSON PERSON_re ?inp 0 acc = Some found \<and> ?ent \<in> set found"
    for acc
  proof -
    have "length pre \<le> length ?inp" "0 \<le> length pre"
      by simp_all
    from match_loop_finds [OF p hd free this, where ty = PERSON and acc = acc] show ?thesis
      by (simp add: sub)
  qed
  have "(PERSON, PERSON_re) \<in> set PATTERNS"
    by (simp add: PATTERNS_def)
  from pattern_loop_finds [OF PATTERNS_consume this loop, of "[]"] obtain found where
    "pattern_loop PATTERNS ?inp [] = Some found" "?ent \<in> set found"
    by blast
  then show ?thesis
    by (simp add: detectEntities_def set_sort_cmp)
qed

lemma person_shape_hd:
  assumes "person_shape u"
  shows "u \<noteq> [] \<and> in_class upper (hd u)"
proof -
  from assms obtain w ws where "capitalized_word w"
    and "u = w @ concat (map (\<lambda>(g, w'). g @ w') ws)"
    unfolding person_shape_def by blast
  then show ?thesis
    by (cases w) (simp_all add: capitalized_word_def)
qed

lemma capitalized_word_chars:
  assumes "capitalized_word w"
  shows "list_all (\<lambda>c. in_class upper c \<or> in_class lower_accented c \<or> in_class white_space c) w"
  using assms by (cases w) (auto simp: capitalized_word_def list_all_iff)

lemma groups_chars:
  assumes "list_all (\<lambda>(g, w'). white_run g \<and> capitalized_word w') ws"
  shows "list_all (\<lambda>c. in_class upper c \<or> in_class lower_accented c \<or> in_class white_space c)
           (concat (map (\<lambda>(g, w'). g @ w') ws))"
  using assms
proof (induction ws)
  case Nil
  then show ?case by simp
next
  case (Cons gw ws)
  obtain g w where gw: "gw = (g, w)"
    by (cases gw)
  with Cons.prems have "white_run g" "capitalized_word w"
    by simp_all
  then have "list_all (\<lambda>c. in_class upper c \<or> in_class lower_accented c \<or> in_class white_space c) g"
    "list_all (\<lambda>c. in_class upper c \<or> in_class lower_accented c \<or> in_class white_space c) w"
    using capitalized_word_chars by (auto simp: white_run_def list_all_iff)
  with Cons gw show ?case
    by simp
qed

lemma person_shape_chars:
  assumes "person_shape u"
  shows "list_all (\<lambda>c. in_class upper c \<or> in_class lower_accented c \<or> in_class white_space c) u"
proof -
  from assms obtain w ws where "capitalized_word w"
    and "list_all (\<lambda>(g, w'). white_run g \<and> capitalized_word w') ws"
    and "u = w @ concat (map (\<lambda>(g, w'). g @ w') ws)"
    unfolding person_shape_def by blast
  with capitalized_word_chars groups_chars show ?thesis
    by simp
qed

lemma not_extended_left:
  assumes "list_all (\<lambda>c. \<not> in_class upper c) pre"
  shows "\<not> (\<exists>x y. pre = x @ y \<and> y \<noteq> [] \<and> person_shape (y @ v))"
proof
  assume "\<exists>x y. pre = x @ y \<and> y \<noteq> [] \<and> person_shape (y @ v)"
  then obtain x y where pre: "pre = x @ y" and y: "y \<noteq> []" and p: "person_shape (y @ v)"
    by blast
  from person_shape_hd [OF p] y have "in_class upper (hd y)"
    by simp
  moreover from pre y have "hd y \<in> set pre"
    by simp
  ultimately show False
    using assms by (simp add: list_all_iff)
qed

lemma not_extended_right:
  assumes "post \<noteq> []"
    and "\<not> (in_class upper (hd post) \<or> in_class lower_accented (hd post) \<or>
            in_class white_space (hd post))"
  shows "\<not> (\<exists>x y. post = x @ y \<and> x \<noteq> [] \<and> person_shape (v @ x))"
proof
  assume "\<exists>x y. post = x @ y \<and> x \<noteq> [] \<and> person_shape (v @ x)"
  then obtain x y where post: "post = x @ y" and x: "x \<noteq> []" and p: "person_shape (v @ x)"
    by blast
  from post x have "hd x = hd post"
    by simp
  moreover from x have "hd x \<in> set (v @ x)"
    by simp
  ultimately show False
    using person_shape_chars [OF p] assms(2) by (simp add: list_all_iff)
qed

lemma sample_person_shape: "person_shape (str ''Mario Rossi'')"
proof -
  have "capitalized_word (str ''Mario'') \<and> [(str '' '', str ''Rossi'')] \<noteq> [] \<and>
      list_all (\<lambda>(g, w'). white_run g \<and> capitalized_word w') [(str '' '', str ''Rossi'')] \<and>
      str ''Mario Rossi'' =
        str ''Mario'' @ concat (map (\<lambda>(g, w'). g @ w') [(str '' '', str ''Rossi'')])"
    by code_simp
  then show ?thesis
    unfolding person_shape_def by blast
qed

lemma sample_maximal:
  "maximal_person (str ''ciao '') (str ''Mario Rossi'') (str '', grazie'')"
proof -
  have "list_all (\<lambda>c. \<not> in_class upper c) (str ''ciao '')"
    by code_simp
  then have l: "\<not> (\<exists>x y. str ''ciao '' = x @ y \<and> y \<noteq> [] \<and>
      person_shape (y @ str ''Mario Rossi''))"
    by (rule not_extended_left)
  have "str '', grazie'' \<noteq> []"
    "\<not> (in_class upper (hd (str '', grazie'')) \<or> in_class lower_accented (hd (str '', grazie'')) \<or>
            in_class white_space (hd (str '', grazie'')))"
    by code_simp+
  then have r: "\<not> (\<exists>x y. str '', grazie'' = x @ y \<and> x \<noteq> [] \<and>
      person_shape (str ''Mario Rossi'' @ x))"
    by (rule not_extended_right)
  from sample_person_shape l r show ?thesis
    unfolding maximal_person_def by (intro conjI)
qed

lemma sample_boundaries:
  "word_boundary (str ''ciao '' @ str ''Mario Rossi'' @ str '', grazie'') (length (str ''ciao ''))"
  "word_boundary (str ''ciao '' @ str ''Mario Rossi'' @ str '', grazie'')
     (length (str ''ciao '') + length (str ''Mario Rossi''))"
  by code_simp+

text \<open>
  Claim C9, as the code has it.  For every input, every entity of type \<open>PERSON\<close> that
  \<open>detectEntities\<close> returns has a value made of two or more capitalized words (a letter
  \<open>A\<close> to \<open>Z\<close> followed by one or more letters among \<open>a\<close> to \<open>z\<close> and the six accented
  ones), each word but the first preceded by a run of one or more white-space code units.
  And every maximal such name in the input, \<open>v\<close> between \<open>pre\<close> and \<open>post\<close>, that starts and
  ends at a word boundary of the pattern is detected: \<open>detectEntities\<close> returns a \<open>PERSON\<close>
  entity with the value \<open>v\<close> and exactly its span.
\<close>

theorem person_entities:
  "(\<exists>entities. detectEntities text = Some entities \<and>
      (\<forall>e \<in> set entities. etype e = PERSON \<longrightarrow> person_shape (evalue e))) \<and>
   (maximal_person pre v post \<and>
    word_boundary (pre @ v @ post) (length pre) \<and>
    word_boundary (pre @ v @ post) (length pre + length v) \<longrightarrow>
      (\<exists>entities. detectEntities (pre @ v @ post) = Some entities \<and>
         \<lparr>etype = PERSON, evalue = v, estart = length pre,
            eend = length pre + length v\<rparr> \<in> set entities))"
proof (intro conjI impI)
  from person_entities_shape [of "text"]
  show "\<exists>entities. detectEntities text = Some entities \<and>
      (\<forall>e \<in> set entities. etype e = PERSON \<longrightarrow> person_shape (evalue e))"
    unfolding person_shape_def .
next
  assume "maximal_person pre v post \<and>
    word_boundary (pre @ v @ post) (length pre) \<and>
    word_boundary (pre @ v @ post) (length pre + length v)"
  then show "\<exists>entities. detectEntities (pre @ v @ post) = Some entities \<and>
         \<lparr>etype = PERSON, evalue = v, estart = length pre,
            eend = length pre + length v\<rparr> \<in> set entities"
    using person_detected by blast
qed

theorem person_entities_witness:
  "maximal_person (str ''ciao '') (str ''Mario Rossi'') (str '', grazie'') \<and>
   word_boundary (str ''ciao '' @ str ''Mario Rossi'' @ str '', grazie'') (length (str ''ciao '')) \<and>
   word_boundary (str ''ciao '' @ str ''Mario Rossi'' @ str '', grazie'')
     (length (str ''ciao '') + length (str ''Mario Rossi'')) \<and>
   (\<exists>entities.
      detectEntities (str ''ciao '' @ str ''Mario Rossi'' @ str '', grazie'') = Some entities \<and>
      \<lparr>etype = PERSON, evalue = str ''Mario Rossi'', estart = length (str ''ciao ''),
         eend = length (str ''ciao '') + length (str ''Mario Rossi'')\<rparr> \<in> set entities)"
proof -
  note h = conjI [OF sample_maximal conjI [OF sample_boundaries]]
  from person_entities [of "[]" "str ''ciao ''" "str ''Mario Rossi''" "str '', grazie''"]
  have "maximal_person (str ''ciao '') (str ''Mario Rossi'') (str '', grazie'') \<and>
    word_boundary (str ''ciao '' @ str ''Mario Rossi'' @ str '', grazie'') (length (str ''ciao '')) \<and>
    word_boundary (str ''ciao '' @ str ''Mario Rossi'' @ str '', grazie'')
      (length (str ''ciao '') + length (str ''Mario Rossi'')) \<longrightarrow>
    (\<exists>entities.
      detectEntities (str ''ciao '' @ str ''Mario Rossi'' @ str '', grazie'') = Some entities \<and>
      \<lparr>etype = PERSON, evalue = str ''Mario Rossi'', estart = length (str ''ciao ''),
         eend = length (str ''ciao '') + length (str ''Mario Rossi'')\<rparr> \<in> set entities)"
    by (rule conjunct2)
  from mp [OF this h] sample_maximal sample_boundaries show ?thesis
    by (intro conjI)
qed

text \<open>
  Claim C9 as stated fails.  \<open>Mario\<close> and \<open>Rossi\<close> two spaces apart are one \<open>PERSON\<close> entity,
  whose words are not separated by a single space.  In \<open>Mario Ross\<close> followed by an i-grave
  (code unit 236) the entity stops at \<open>Mario Ross\<close>: the accented letter is not a word
  character, so the name does not end at a word boundary.  With a digit right after or
  right before the name there is no word boundary either, and nothing is detected.
\<close>

theorem person_entities_counterexample:
  "detectEntities (str ''Mario  Rossi'') =
     Some [\<lparr>etype = PERSON, evalue = str ''Mario  Rossi'', estart = 0, eend = 12\<rparr>] \<and>
   detectEntities (str ''Mario Ross'' @ [236]) =
     Some [\<lparr>etype = PERSON, evalue = str ''Mario Ross'', estart = 0, eend = 10\<rparr>] \<and>
   detectEntities (str ''Mario Rossi2'') = Some [] \<and>
   detectEntities (str ''2Mario Rossi'') = Some []"
  by code_simp

section \<open>Properties of the pseudonym generator\<close>

lemma getFakeValue_stored:
  assumes "entityMaps s ty = Some m" and "m v = Some fake"
  shows "getFakeValue lib ty v s = Inr (fake, s)"
  using assms by (simp add: getFakeValue_def)

lemma getFakeValue_fresh:
  assumes "entityMaps s ty = Some m" and "m v = None"
    and "generateFakeValue lib ty (rng s) = (fake, r')"
  shows "getFakeValue lib ty v s =
           Inr (fake, s\<lparr>entityMaps := (entityMaps s)(ty \<mapsto> m(v \<mapsto> fake)), rng := r'\<rparr>)"
  using assms by (simp add: getFakeValue_def)

lemma getFakeValue_no_map:
  assumes "entityMaps s ty = None"
  shows "getFakeValue lib ty v s = Inl TypeError"
  using assms by (simp add: getFakeValue_def)

lemma session_ok_lookup:
  assumes "session_ok s" and "ty \<in> set ENTITY_TYPES"
  shows "\<exists>m. entityMaps s ty = Some m"
  using assms unfolding session_ok_def by (metis domD)

lemma getFakeValue_returns:
  assumes "session_ok s" and "ty \<in> set ENTITY_TYPES"
  shows "\<exists>fake s1. getFakeValue lib ty v s = Inr (fake, s1)"
proof -
  from assms obtain m where "entityMaps s ty = Some m"
    using session_ok_lookup by blast
  then show ?thesis
    by (simp add: getFakeValue_def split: option.splits prod.splits)
qed

lemma session_ok_getFakeValue:
  assumes "session_ok s" and "getFakeValue lib ty v s = Inr (fake, s')"
  shows "session_ok s'"
proof (cases "entityMaps s ty")
  case None
  with assms(2) show ?thesis
    by (simp add: getFakeValue_def)
next
  case (Some m)
  then have ty: "ty \<in> dom (entityMaps s)"
    by blast
  show ?thesis
  proof (cases "m v")
    case (Some old)
    with \<open>entityMaps s ty = Some m\<close> assms show ?thesis
      by (simp add: getFakeValue_def)
  next
    case None
    with \<open>entityMaps s ty = Some m\<close> assms(2)
    have "dom (entityMaps s') = insert ty (dom (entityMaps s))"
      by (auto simp: getFakeValue_def split: prod.splits)
    with ty assms(1) show ?thesis
      by (simp add: session_ok_def insert_absorb)
  qed
qed

lemma init_session_ok: "session_ok (init_session r)"
  by (auto simp: session_ok_def init_session_def ENTITY_TYPES_def)

lemma PERSON_type: "PERSON \<in> set ENTITY_TYPES"
  by (simp add: ENTITY_TYPES_def)

lemma session_ok_update:
  assumes "session_ok s" and "ty \<in> set ENTITY_TYPES"
  shows "session_ok (s\<lparr>entityMaps := (entityMaps s)(ty \<mapsto> m), rng := r\<rparr>)"
  using assms by (auto simp: session_ok_def)

lemma resetMaps_init:
  assumes "session_ok s"
  shows "resetMaps s = init_session (rng s)"
proof -
  have "entityMaps (resetMaps s) ty = entityMaps (init_session (rng s)) ty" for ty
  proof (cases "ty \<in> set ENTITY_TYPES")
    case True
    then obtain m where "entityMaps s ty = Some m"
      using assms session_ok_lookup by blast
    moreover have "entityMaps (init_session (rng s)) ty = Some Map.empty"
      using True by (auto simp: init_session_def ENTITY_TYPES_def)
    ultimately show ?thesis
      by (simp add: resetMaps_def)
  next
    case False
    then have "entityMaps s ty = None"
      using assms by (auto simp: session_ok_def)
    moreover have "entityMaps (init_session (rng s)) ty = None"
      using False by (auto simp: init_session_def ENTITY_TYPES_def)
    ultimately show ?thesis
      by (simp add: resetMaps_def)
  qed
  then have "entityMaps (resetMaps s) = entityMaps (init_session (rng s))"
    by (rule ext)
  moreover have "rng (resetMaps s) = rng (init_session (rng s))"
    by (simp add: resetMaps_def init_session_def)
  ultimately show ?thesis
    by simp
qed

lemma SSN_unknown: "str ''SSN'' \<notin> set ENTITY_TYPES"
  by code_simp

text \<open>
  Claim C2.  In a session whose \<open>entityMaps\<close> holds the six maps, and for a type of the
  enumeration, \<open>getFakeValue\<close> returns a value \<open>fake\<close> and a session \<open>s1\<close> in which \<open>fake\<close> is
  stored under the original value; a second call with the same type and value, in \<open>s1\<close>,
  returns the same \<open>fake\<close> and the same session \<open>s1\<close>: neither the maps nor the random
  source have changed.
\<close>

theorem getFakeValue_twice:
  assumes "session_ok s" and "ty \<in> set ENTITY_TYPES"
  shows "\<exists>fake s1 m1.
           getFakeValue lib ty v s = Inr (fake, s1) \<and>
           entityMaps s1 ty = Some m1 \<and> m1 v = Some fake \<and>
           getFakeValue lib ty v s1 = Inr (fake, s1)"
proof -
  from assms obtain m where m: "entityMaps s ty = Some m"
    using session_ok_lookup by blast
  show ?thesis
  proof (cases "m v")
    case (Some fake)
    with m show ?thesis
      using getFakeValue_stored by blast
  next
    case None
    obtain fake r' where g: "generateFakeValue lib ty (rng s) = (fake, r')"
      by (cases "generateFakeValue lib ty (rng s)")
    let ?s1 = "s\<lparr>entityMaps := (entityMaps s)(ty \<mapsto> m(v \<mapsto> fake)), rng := r'\<rparr>"
    have first: "getFakeValue lib ty v s = Inr (fake, ?s1)"
      using getFakeValue_fresh [OF m None g] .
    have look: "entityMaps ?s1 ty = Some (m(v \<mapsto> fake))"
      by simp
    have "getFakeValue lib ty v ?s1 = Inr (fake, ?s1)"
      by (rule getFakeValue_stored [OF look]) simp
    with first look show ?thesis
      by (metis fun_upd_same)
  qed
qed

theorem getFakeValue_twice_witness:
  "session_ok (init_session (0::nat)) \<and> PERSON \<in> set ENTITY_TYPES \<and>
   (\<exists>fake s1 m1.
      getFakeValue stub_faker PERSON (str ''Mario Rossi'') (init_session 0) = Inr (fake, s1) \<and>
      entityMaps s1 PERSON = Some m1 \<and> m1 (str ''Mario Rossi'') = Some fake \<and>
      getFakeValue stub_faker PERSON (str ''Mario Rossi'') s1 = Inr (fake, s1))"
  by (rule conjI [OF init_session_ok conjI [OF PERSON_type
        getFakeValue_twice [OF init_session_ok PERSON_type]]])

text \<open>
  Claim C7.  After \<open>resetMaps\<close> the session is the initial one (with the random source where
  it stands): the map of every type of the enumeration is empty, so the next \<open>getFakeValue\<close>
  for any value generates a new value and stores it in an otherwise empty session.  Nothing
  of the maps' earlier contents is left in the result.
\<close>

theorem resetMaps_forgets:
  assumes "session_ok s" and "ty \<in> set ENTITY_TYPES"
  shows "resetMaps s = init_session (rng s) \<and>
         entityMaps (resetMaps s) ty = Some Map.empty \<and>
         (\<exists>fake r'. generateFakeValue lib ty (rng s) = (fake, r') \<and>
            getFakeValue lib ty v (resetMaps s) =
              Inr (fake, (init_session r')\<lparr>entityMaps := (entityMaps (init_session r'))(ty \<mapsto> [v \<mapsto> fake])\<rparr>))"
proof -
  have r: "resetMaps s = init_session (rng s)"
    using assms(1) by (rule resetMaps_init)
  have e: "entityMaps (init_session (rng s)) ty = Some Map.empty"
    using assms(2) by (auto simp: init_session_def ENTITY_TYPES_def)
  obtain fake r' where g: "generateFakeValue lib ty (rng s) = (fake, r')"
    by (cases "generateFakeValue lib ty (rng s)")
  have "getFakeValue lib ty v (init_session (rng s)) =
          Inr (fake, (init_session r')\<lparr>entityMaps := (entityMaps (init_session r'))(ty \<mapsto> [v \<mapsto> fake])\<rparr>)"
    using e g by (simp add: getFakeValue_def init_session_def)
  with r e g show ?thesis
    by simp
qed

theorem resetMaps_forgets_witness:
  "session_ok ((init_session (0::nat))
      \<lparr>entityMaps := (entityMaps (init_session (0::nat)))
         (PERSON \<mapsto> [str ''Mario Rossi'' \<mapsto> str ''Anna Bianchi 0'']), rng := 1\<rparr>) \<and>
   PERSON \<in> set ENTITY_TYPES \<and>
   resetMaps ((init_session (0::nat))
      \<lparr>entityMaps := (entityMaps (init_session (0::nat)))
         (PERSON \<mapsto> [str ''Mario Rossi'' \<mapsto> str ''Anna Bianchi 0'']), rng := 1\<rparr>) =
     init_session 1 \<and>
   entityMaps (resetMaps ((init_session (0::nat))
      \<lparr>entityMaps := (entityMaps (init_session (0::nat)))
         (PERSON \<mapsto> [str ''Mario Rossi'' \<mapsto> str ''Anna Bianchi 0'']), rng := 1\<rparr>)) PERSON =
     Some Map.empty"
proof -
  let ?s = "(init_session (0::nat))
      \<lparr>entityMaps := (entityMaps (init_session (0::nat)))
         (PERSON \<mapsto> [str ''Mario Rossi'' \<mapsto> str ''Anna Bianchi 0'']), rng := 1\<rparr>"
  have ok: "session_ok ?s"
    by (rule session_ok_update [OF init_session_ok PERSON_type])
  note w = resetMaps_forgets [OF ok PERSON_type, of stub_faker "str ''Mario Rossi''"]
  have r: "rng ?s = 1"
    by simp
  have a: "resetMaps ?s = init_session (rng ?s)"
    using w by (rule conjunct1)
  have b: "entityMaps (resetMaps ?s) PERSON = Some Map.empty"
    using w by (rule conjunct1 [OF conjunct2])
  from a have "resetMaps ?s = init_session 1"
    unfolding r .
  with ok PERSON_type b show ?thesis
    by (intro conjI)
qed

text \<open>
  Claim C6, as the code has it.  For a type outside the enumeration \<open>generateFakeValue\<close>
  returns the placeholder \<open>[REDACTED_<type>]\<close> and draws nothing from the random source, but
  \<open>getFakeValue\<close> does not reach it: \<open>entityMaps\<close> has no map for such a type and the call
  throws a \<open>TypeError\<close>.
\<close>

theorem getFakeValue_unknown_type:
  assumes "session_ok s" and "ty \<notin> set ENTITY_TYPES"
  shows "generateFakeValue lib ty r = (str ''[REDACTED_'' @ ty @ str '']'', r) \<and>
         getFakeValue lib ty v s = Inl TypeError"
proof -
  have "entityMaps s ty = None"
    using assms by (auto simp: session_ok_def)
  then have "getFakeValue lib ty v s = Inl TypeError"
    by (rule getFakeValue_no_map)
  moreover have "generateFakeValue lib ty r = (str ''[REDACTED_'' @ ty @ str '']'', r)"
    using assms(2) by (simp add: generateFakeValue_def ENTITY_TYPES_def)
  ultimately show ?thesis
    by simp
qed

theorem getFakeValue_unknown_type_witness:
  "session_ok (init_session (0::nat)) \<and> str ''SSN'' \<notin> set ENTITY_TYPES \<and>
   generateFakeValue stub_faker (str ''SSN'') 0 = (str ''[REDACTED_SSN]'', 0) \<and>
   getFakeValue stub_faker (str ''SSN'') (str ''Mario Rossi'') (init_session 0) = Inl TypeError"
  using getFakeValue_unknown_type [OF init_session_ok SSN_unknown, of stub_faker 0 "str ''Mario Rossi''" 0]
    init_session_ok [of "0::nat"] SSN_unknown
  by (simp add: str_def)

text \<open>
  Claim C6 as stated fails: with the type \<open>SSN\<close>, outside the enumeration, \<open>getFakeValue\<close>
  throws instead of returning the placeholder.
\<close>

theorem getFakeValue_unknown_type_counterexample:
  "getFakeValue stub_faker (str ''SSN'') (str ''Mario Rossi'') (init_session 0) = Inl TypeError"
proof -
  have "entityMaps (init_session (0::nat)) (str ''SSN'') = None"
    using init_session_ok [of "0::nat"] SSN_unknown by (auto simp: session_ok_def)
  then show ?thesis
    by (rule getFakeValue_no_map)
qed

section \<open>Properties of the anonymization engine\<close>

lemma detect_empty: "detectEntities [] = Some []"
  by code_simp

lemma detect_none_sample: "detectEntities (str ''ciao mondo'') = Some []"
  by code_simp

lemma PATTERNS_types: "(ty, p) \<in> set PATTERNS \<Longrightarrow> ty \<in> set ENTITY_TYPES"
  by (auto simp: PATTERNS_def ENTITY_TYPES_def)

lemma replace_loop_returns:
  assumes "session_ok s" and "\<forall>e \<in> set entities. etype e \<in> set ENTITY_TYPES"
  shows "\<exists>out s'. replace_loop lib entities result s = Inr (out, s') \<and> session_ok s'"
  using assms
proof (induction entities arbitrary: result s)
  case Nil
  then show ?case by simp
next
  case (Cons entity rest)
  from Cons.prems have ty: "etype entity \<in> set ENTITY_TYPES"
    by simp
  from getFakeValue_returns [OF Cons.prems(1) ty, of lib "evalue entity"] obtain fake s1 where
    g: "getFakeValue lib (etype entity) (evalue entity) s = Inr (fake, s1)"
    by blast
  have ok1: "session_ok s1"
    using session_ok_getFakeValue [OF Cons.prems(1) g] .
  from Cons.prems(2) have "\<forall>e \<in> set rest. etype e \<in> set ENTITY_TYPES"
    by simp
  from Cons.IH [OF ok1 this] g show ?case
    by simp
qed

lemma anonymizeText_returns:
  assumes "session_ok s"
  shows "\<exists>out s'. anonymizeText lib text s = Some (Inr (out, s')) \<and> session_ok s'"
proof -
  from detectEntities_returns [of "text"] obtain found where
    d: "detectEntities text = Some (sort_cmp (\<lambda>a b. int (estart b) - int (estart a)) found)"
    and a: "\<forall>e \<in> set found. \<exists>p. (etype e, p) \<in> set PATTERNS \<and>
        estart e < eend e \<and> eend e \<le> length text \<and>
        evalue e = substring text (estart e) (eend e) \<and>
        eend e \<in> set (match_ends (source p) (ignoreCase p) text (estart e))"
    by blast
  have "\<forall>e \<in> set (sort_cmp (\<lambda>a b. int (estart b) - int (estart a)) found).
          etype e \<in> set ENTITY_TYPES"
    using a PATTERNS_types by (fastforce simp: set_sort_cmp)
  from replace_loop_returns [OF assms this] d show ?thesis
    by (simp add: anonymizeText_def)
qed

lemma anonymize_each_returns:
  assumes "session_ok s"
  shows "\<exists>outs s'. anonymize_each lib chunks s = Some (Inr (outs, s')) \<and> session_ok s'"
  using assms
proof (induction chunks arbitrary: s)
  case Nil
  then show ?case by simp
next
  case (Cons chunk rest)
  from anonymizeText_returns [OF Cons.prems, of lib chunk] obtain out s1 where
    1: "anonymizeText lib chunk s = Some (Inr (out, s1))" and ok: "session_ok s1"
    by blast
  from Cons.IH [OF ok] obtain outs s2 where
    2: "anonymize_each lib rest s1 = Some (Inr (outs, s2))" and ok2: "session_ok s2"
    by blast
  from 1 2 ok2 show ?case
    by simp
qed

lemma anonymize_loop_each:
  "anonymize_loop lib chunks acc s =
     (case anonymize_each lib chunks s of
        None \<Rightarrow> None
      | Some (Inl e) \<Rightarrow> Some (Inl e)
      | Some (Inr (outs, s')) \<Rightarrow> Some (Inr (acc @ outs, s')))"
proof (induction chunks arbitrary: acc s)
  case Nil
  then show ?case by simp
next
  case (Cons chunk rest)
  show ?case
  proof (cases "anonymizeText lib chunk s")
    case None
    then show ?thesis by simp
  next
    case (Some r)
    show ?thesis
    proof (cases r)
      case (Inl e)
      with Some show ?thesis by simp
    next
      case (Inr os)
      obtain out s1 where os: "os = (out, s1)"
        by (cases os)
      with Some Inr Cons.IH [of "acc @ [out]" s1] show ?thesis
        by (simp split: option.splits sum.splits prod.splits)
    qed
  qed
qed

lemma substring_chunk:
  assumes "i < length text"
  shows "substring text i (i + n) = take n (drop i text)"
  using assms by (simp add: substring_def Let_def min_def max_def)

lemma chunk_loop_concat:
  "concat (chunk_loop text i chunks) = concat chunks @ drop i text"
proof (induction "text" i chunks rule: chunk_loop.induct)
  case (1 inp i chunks)
  show ?case
  proof (cases "i < length inp")
    case True
    have "take CHUNK_SIZE (drop i inp) @ drop (i + CHUNK_SIZE) inp = drop i inp"
      by (metis add.commute append_take_drop_id drop_drop)
    with True "1.IH" [OF True] show ?thesis
      by (subst chunk_loop.simps) (simp add: substring_chunk)
  next
    case False
    then show ?thesis
      by (subst chunk_loop.simps) simp
  qed
qed

lemma chunk_loop_lengths:
  "map length (chunk_loop text i chunks) =
     map length chunks @ replicate ((length text - i) div CHUNK_SIZE) CHUNK_SIZE @
       (if (length text - i) mod CHUNK_SIZE = 0 then [] else [(length text - i) mod CHUNK_SIZE])"
proof (induction "text" i chunks rule: chunk_loop.induct)
  case (1 inp i chunks)
  have pos: "0 < CHUNK_SIZE"
    by (simp add: CHUNK_SIZE_def)
  show ?case
  proof (cases "i < length inp")
    case False
    then show ?thesis
      by (subst chunk_loop.simps) simp
  next
    case True
    let ?c = "take CHUNK_SIZE (drop i inp)"
    let ?r = "length inp - (i + CHUNK_SIZE)"
    have step: "chunk_loop inp i chunks = chunk_loop inp (i + CHUNK_SIZE) (chunks @ [?c])"
      using True by (subst chunk_loop.simps) (simp add: substring_chunk)
    have ih: "map length (chunk_loop inp (i + CHUNK_SIZE) (chunks @ [?c])) =
        map length (chunks @ [?c]) @ replicate (?r div CHUNK_SIZE) CHUNK_SIZE @
          (if ?r mod CHUNK_SIZE = 0 then [] else [?r mod CHUNK_SIZE])"
      using "1.IH" [OF True] by (simp only: substring_chunk [OF True])
    show ?thesis
    proof (cases "CHUNK_SIZE \<le> length inp - i")
      case full: True
      then have d: "(length inp - i) div CHUNK_SIZE = Suc (?r div CHUNK_SIZE)"
        using pos by (simp add: le_div_geq)
      from full have m: "(length inp - i) mod CHUNK_SIZE = ?r mod CHUNK_SIZE"
        by (simp add: le_mod_geq)
      from full have l: "length ?c = CHUNK_SIZE"
        by simp
      have "map length (chunks @ [?c]) @ replicate (?r div CHUNK_SIZE) CHUNK_SIZE =
          map length chunks @ replicate (Suc (?r div CHUNK_SIZE)) CHUNK_SIZE"
        using l by (simp del: length_take)
      then show ?thesis
        unfolding step ih d m by (simp del: length_take replicate_Suc)
    next
      case short: False
      then have d: "(length inp - i) div CHUNK_SIZE = 0"
        and m: "(length inp - i) mod CHUNK_SIZE = length inp - i"
        and z: "?r = 0"
        by simp_all
      from short have l: "length ?c = length inp - i"
        by simp
      show ?thesis
        unfolding step ih d m z using l True
        by (simp del: length_take)
    qed
  qed
qed

lemma chunk_loop_single:
  assumes "text \<noteq> []" and "length text \<le> CHUNK_SIZE"
  shows "chunk_loop text 0 [] = [text]"
proof -
  from assms(1) have 1: "chunk_loop text 0 [] = chunk_loop text CHUNK_SIZE [substring text 0 (0 + CHUNK_SIZE)]"
    by (subst chunk_loop.simps) simp
  from assms have 2: "substring text 0 (0 + CHUNK_SIZE) = text"
    by (simp add: substring_def)
  from assms(2) have 3: "chunk_loop text CHUNK_SIZE [text] = [text]"
    by (subst chunk_loop.simps) simp
  from 1 2 3 show ?thesis
    by simp
qed

lemma chunk_loop_empty: "chunk_loop [] 0 [] = []"
  by (subst chunk_loop.simps) simp

lemma anonymize_each_single:
  "(case anonymize_each lib [text] s of
      None \<Rightarrow> None
    | Some (Inl e) \<Rightarrow> Some (Inl e)
    | Some (Inr (outs, s')) \<Rightarrow> Some (Inr (concat outs, s'))) = anonymizeText lib text s"
  by (simp split: option.splits sum.splits prod.splits)

lemma anonymizeTextChunked_each:
  "anonymizeTextChunked lib text s =
     (case anonymize_each lib (chunk_loop text 0 []) s of
        None \<Rightarrow> None
      | Some (Inl e) \<Rightarrow> Some (Inl e)
      | Some (Inr (outs, s')) \<Rightarrow> Some (Inr (concat outs, s')))"
  by (simp add: anonymizeTextChunked_def anonymize_loop_each
      split: option.splits sum.splits prod.splits)

lemma sample_length: "length (str ''Mario Rossi'') \<le> CHUNK_SIZE"
  by (simp add: str_def CHUNK_SIZE_def)

text \<open>
  Claim C8.  When \<open>detectEntities\<close> returns the empty sequence for an input,
  \<open>anonymizeText\<close> returns the input itself and leaves the session (the consistency maps and
  the random source) as it was.
\<close>

theorem anonymizeText_no_entities:
  assumes "detectEntities text = Some []"
  shows "anonymizeText lib text s = Some (Inr (text, s))"
  using assms by (simp add: anonymizeText_def)

theorem anonymizeText_no_entities_witness:
  "detectEntities (str ''ciao mondo'') = Some [] \<and>
   anonymizeText stub_faker (str ''ciao mondo'') (init_session 0) =
     Some (Inr (str ''ciao mondo'', init_session 0))"
  by (rule conjI [OF detect_none_sample anonymizeText_no_entities [OF detect_none_sample]])

text \<open>
  Claim C10.  On an input of at most \<open>CHUNK_SIZE\<close> code units, the empty input included,
  \<open>anonymizeTextChunked\<close> and \<open>anonymizeText\<close> have the same outcome: the same string and the
  same session.
\<close>

theorem anonymizeTextChunked_single:
  assumes "length text \<le> CHUNK_SIZE"
  shows "anonymizeTextChunked lib text s = anonymizeText lib text s"
proof (cases "text = []")
  case True
  have "anonymizeText lib [] s = Some (Inr ([], s))"
    by (simp add: anonymizeText_def detect_empty)
  with True show ?thesis
    by (simp add: anonymizeTextChunked_each chunk_loop_empty)
next
  case False
  from chunk_loop_single [OF False assms] show ?thesis
    by (simp only: anonymizeTextChunked_each anonymize_each_single)
qed

theorem anonymizeTextChunked_single_witness:
  "length (str ''Mario Rossi'') \<le> CHUNK_SIZE \<and>
   anonymizeTextChunked stub_faker (str ''Mario Rossi'') (init_session 0) =
     anonymizeText stub_faker (str ''Mario Rossi'') (init_session 0)"
  by (rule conjI [OF sample_length anonymizeTextChunked_single [OF sample_length]])

text \<open>
  Claim C4.  The chunks \<open>anonymizeTextChunked\<close> cuts are consecutive pieces of the input
  (their concatenation is the input), \<open>length text div CHUNK_SIZE\<close> of them of exactly
  \<open>CHUNK_SIZE\<close> code units, followed, when the length is not a multiple of \<open>CHUNK_SIZE\<close>, by
  one shorter, non-empty chunk.  The result is the concatenation, in order, of the outputs
  of \<open>anonymizeText\<close> on each chunk on its own (\<open>anonymize_each\<close>); only the session passes
  from one chunk to the next.  In a session holding the six maps the call returns a string.
\<close>

theorem anonymizeTextChunked_chunks:
  "concat (chunk_loop text 0 []) = text \<and>
   map length (chunk_loop text 0 []) =
     replicate (length text div CHUNK_SIZE) CHUNK_SIZE @
       (if length text mod CHUNK_SIZE = 0 then [] else [length text mod CHUNK_SIZE]) \<and>
   anonymizeTextChunked lib text s =
     (case anonymize_each lib (chunk_loop text 0 []) s of
        None \<Rightarrow> None
      | Some (Inl e) \<Rightarrow> Some (Inl e)
      | Some (Inr (outs, s')) \<Rightarrow> Some (Inr (concat outs, s'))) \<and>
   (session_ok s \<longrightarrow>
      (\<exists>outs s'. anonymize_each lib (chunk_loop text 0 []) s = Some (Inr (outs, s')) \<and>
         anonymizeTextChunked lib text s = Some (Inr (concat outs, s'))))"
proof -
  have 1: "concat (chunk_loop text 0 []) = text"
    by (simp add: chunk_loop_concat)
  have 2: "map length (chunk_loop text 0 []) =
     replicate (length text div CHUNK_SIZE) CHUNK_SIZE @
       (if length text mod CHUNK_SIZE = 0 then [] else [length text mod CHUNK_SIZE])"
    using chunk_loop_lengths [of "text" 0 "[]"] by simp
  note 3 = anonymizeTextChunked_each [of lib "text" s]
  have 4: "\<exists>outs s'. anonymize_each lib (chunk_loop text 0 []) s = Some (Inr (outs, s')) \<and>
         anonymizeTextChunked lib text s = Some (Inr (concat outs, s'))" if "session_ok s"
  proof -
    from anonymize_each_returns [OF that, of lib "chunk_loop text 0 []"] obtain outs s' where
      "anonymize_each lib (chunk_loop text 0 []) s = Some (Inr (outs, s'))"
      by blast
    then show ?thesis
      by (simp add: 3)
  qed
  from 1 2 3 4 show ?thesis
    by blast
qed

theorem anonymizeTextChunked_chunks_witness:
  "concat (chunk_loop (replicate 80001 97) 0 []) = replicate 80001 97 \<and>
   map length (chunk_loop (replicate 80001 97) 0 []) = [80000, 1] \<and>
   session_ok (init_session (0::nat)) \<and>
   (\<exists>outs s'.
      anonymize_each stub_faker (chunk_loop (replicate 80001 97) 0 []) (init_session 0) =
        Some (Inr (outs, s')) \<and>
      anonymizeTextChunked stub_faker (replicate 80001 97) (init_session 0) =
        Some (Inr (concat outs, s')))"
proof -
  note w = anonymizeTextChunked_chunks [of "replicate 80001 97" stub_faker "init_session 0"]
  from w have a: "concat (chunk_loop (replicate 80001 97) 0 []) = replicate 80001 97"
    by (rule conjunct1)
  from w have "map length (chunk_loop (replicate 80001 97) 0 []) =
     replicate (length (replicate 80001 (97::code_unit)) div CHUNK_SIZE) CHUNK_SIZE @
       (if length (replicate 80001 (97::code_unit)) mod CHUNK_SIZE = 0 then []
        else [length (replicate 80001 (97::code_unit)) mod CHUNK_SIZE])"
    by (rule conjunct1 [OF conjunct2])
  then have b: "map length (chunk_loop (replicate 80001 97) 0 []) = [80000, 1]"
    by (simp add: CHUNK_SIZE_def)
  from w init_session_ok [of "0::nat"] have c:
    "\<exists>outs s'.
      anonymize_each stub_faker (chunk_loop (replicate 80001 97) 0 []) (init_session 0) =
        Some (Inr (outs, s')) \<and>
      anonymizeTextChunked stub_faker (replicate 80001 97) (init_session 0) =
        Some (Inr (concat outs, s'))"
    by blast
  from a b init_session_ok [of "0::nat"] c show ?thesis
    by (intro conjI)
qed

lemma separate_mono: "separate b es \<Longrightarrow> b \<le> b' \<Longrightarrow> separate b' es"
  by (cases es) auto

lemma replace_loop_suffix:
  assumes "separate (length pre) es"
  shows "replace_loop lib es (pre @ suf) s =
           (case replace_loop lib es pre s of
              Inl err \<Rightarrow> Inl err
            | Inr (out, s') \<Rightarrow> Inr (out @ suf, s'))"
  using assms
proof (induction es arbitrary: pre s)
  case Nil
  then show ?case by simp
next
  case (Cons e es)
  from Cons.prems have b: "estart e \<le> eend e" "eend e \<le> length pre"
    and rest: "separate (estart e) es"
    by simp_all
  show ?case
  proof (cases "getFakeValue lib (etype e) (evalue e) s")
    case (Inl err)
    then show ?thesis by simp
  next
    case (Inr fs)
    obtain f s1 where fs: "fs = (f, s1)"
      by (cases fs)
    let ?pre1 = "substring pre 0 (estart e) @ f @ substring_from pre (eend e)"
    from b have 1: "substring (pre @ suf) 0 (estart e) = substring pre 0 (estart e)"
      by (simp add: substring_def Let_def min_def max_def)
    from b have 2: "substring_from (pre @ suf) (eend e) = substring_from pre (eend e) @ suf"
      by (simp add: substring_from_def min_def)
    from b have "estart e \<le> length ?pre1"
      by (simp add: substring_def Let_def min_def max_def)
    with rest have sep: "separate (length ?pre1) es"
      by (rule separate_mono)
    have "replace_loop lib (e # es) (pre @ suf) s = replace_loop lib es (?pre1 @ suf) s1"
      using Inr fs 1 2 by simp
    also have "\<dots> = (case replace_loop lib es ?pre1 s1 of
              Inl err \<Rightarrow> Inl err
            | Inr (out, s') \<Rightarrow> Inr (out @ suf, s'))"
      by (rule Cons.IH [OF sep])
    also have "replace_loop lib es ?pre1 s1 = replace_loop lib (e # es) pre s"
      using Inr fs by simp
    finally show ?thesis .
  qed
qed

lemma replace_loop_weave:
  assumes "separate (length text) es"
  shows "replace_loop lib es text s =
           (case resolve_all lib es s of
              Inl err \<Rightarrow> Inl err
            | Inr (fakes, s') \<Rightarrow> Inr (weave text (zip es fakes), s'))"
  using assms
proof (induction es arbitrary: "text" s)
  case Nil
  then show ?case by simp
next
  case (Cons e es)
  from Cons.prems have b: "estart e \<le> eend e" "eend e \<le> length text"
    and rest: "separate (estart e) es"
    by simp_all
  show ?case
  proof (cases "getFakeValue lib (etype e) (evalue e) s")
    case (Inl err)
    then show ?thesis by simp
  next
    case (Inr fs)
    obtain f s1 where fs: "fs = (f, s1)"
      by (cases fs)
    let ?pre = "take (estart e) text"
    let ?suf = "f @ drop (eend e) text"
    from b have 1: "substring text 0 (estart e) = ?pre"
      by (simp add: substring_def Let_def min_def max_def)
    from b have 2: "substring_from text (eend e) = drop (eend e) text"
      by (simp add: substring_from_def min_def)
    from b have len: "length ?pre = estart e"
      by simp
    with rest have sep: "separate (length ?pre) es"
      by simp
    have "replace_loop lib (e # es) text s = replace_loop lib es (?pre @ ?suf) s1"
      using Inr fs 1 2 by simp
    also have "\<dots> = (case replace_loop lib es ?pre s1 of
              Inl err \<Rightarrow> Inl err
            | Inr (out, s') \<Rightarrow> Inr (out @ ?suf, s'))"
      by (rule replace_loop_suffix [OF sep])
    also have "\<dots> = (case resolve_all lib es s1 of
              Inl err \<Rightarrow> Inl err
            | Inr (fakes, s') \<Rightarrow> Inr (weave ?pre (zip es fakes) @ ?suf, s'))"
      by (simp add: Cons.IH [OF sep] split: sum.splits prod.splits)
    also have "\<dots> = (case resolve_all lib (e # es) s of
              Inl err \<Rightarrow> Inl err
            | Inr (fakes, s') \<Rightarrow> Inr (weave text (zip (e # es) fakes), s'))"
      using Inr fs by (simp split: sum.splits prod.splits)
    finally show ?thesis .
  qed
qed

lemma separate_sample:
  "separate (length (str ''Mario Rossi ha scritto a mario.rossi@example.com''))
     [\<lparr>etype = EMAIL_ADDRESS, evalue = str ''mario.rossi@example.com'', estart = 25, eend = 48\<rparr>,
      \<lparr>etype = PERSON, evalue = str ''Mario Rossi'', estart = 0, eend = 11\<rparr>]"
  by (simp add: str_def)

lemma weave_sample:
  "map_sum id fst
     (case resolve_all stub_faker
        [\<lparr>etype = EMAIL_ADDRESS, evalue = str ''mario.rossi@example.com'', estart = 25, eend = 48\<rparr>,
         \<lparr>etype = PERSON, evalue = str ''Mario Rossi'', estart = 0, eend = 11\<rparr>]
        (init_session 0) of
        Inl err \<Rightarrow> Inl err
      | Inr (fakes, s') \<Rightarrow>
          Inr (weave (str ''Mario Rossi ha scritto a mario.rossi@example.com'')
                (zip [\<lparr>etype = EMAIL_ADDRESS, evalue = str ''mario.rossi@example.com'', estart = 25, eend = 48\<rparr>,
                      \<lparr>etype = PERSON, evalue = str ''Mario Rossi'', estart = 0, eend = 11\<rparr>] fakes), s')) =
   Inr (str ''Anna Bianchi 1 ha scritto a anna0@example.org'')"
  by code_simp

text \<open>
  Structural preservation where the detected spans do not overlap: the output of
  \<open>anonymizeText\<close> is the input with each span replaced by the value \<open>getFakeValue\<close>
  returned for it, and every piece of text between, before and after the spans as it was,
  in the same order.
\<close>

theorem anonymizeText_separate_spans:
  assumes "detectEntities text = Some entities" and "separate (length text) entities"
  shows "anonymizeText lib text s =
           Some (case resolve_all lib entities s of
                   Inl err \<Rightarrow> Inl err
                 | Inr (fakes, s') \<Rightarrow> Inr (weave text (zip entities fakes), s'))"
  using assms by (simp add: anonymizeText_def replace_loop_weave)

theorem anonymizeText_separate_spans_witness:
  "detectEntities (str ''Mario Rossi ha scritto a mario.rossi@example.com'') =
     Some [\<lparr>etype = EMAIL_ADDRESS, evalue = str ''mario.rossi@example.com'',
             estart = 25, eend = 48\<rparr>,
           \<lparr>etype = PERSON, evalue = str ''Mario Rossi'', estart = 0, eend = 11\<rparr>] \<and>
   separate (length (str ''Mario Rossi ha scritto a mario.rossi@example.com''))
     [\<lparr>etype = EMAIL_ADDRESS, evalue = str ''mario.rossi@example.com'', estart = 25, eend = 48\<rparr>,
      \<lparr>etype = PERSON, evalue = str ''Mario Rossi'', estart = 0, eend = 11\<rparr>] \<and>
   map_option (map_sum id fst)
     (anonymizeText stub_faker (str ''Mario Rossi ha scritto a mario.rossi@example.com'')
        (init_session 0)) =
     Some (Inr (str ''Anna Bianchi 1 ha scritto a anna0@example.org''))"
proof -
  note w = anonymizeText_separate_spans [OF detect_sample separate_sample, of stub_faker "init_session 0"]
  have "map_option (map_sum id fst)
     (anonymizeText stub_faker (str ''Mario Rossi ha scritto a mario.rossi@example.com'')
        (init_session 0)) =
     Some (Inr (str ''Anna Bianchi 1 ha scritto a anna0@example.org''))"
    unfolding w option.map by (simp only: weave_sample)
  with detect_sample separate_sample show ?thesis
    by (intro conjI)
qed

text \<open>
  Claim C1 fails where the spans of two categories overlap.  In \<open>4539148803436467 ok\<close> the
  phone pattern matches \<open>3914880343\<close>, at 2 to 12, inside the card number at 0 to 16.  The
  phone number is replaced first, here by a string of 9 code units, one less than the
  match; the text right of it moves one to the left, and the replacement of the card number,
  at the offsets of the input, takes the space before \<open>ok\<close> with it.  That space stands
  outside every detected span.
\<close>

theorem anonymizeText_overlap_example:
  "detectEntities (str ''4539148803436467 ok'') =
     Some [\<lparr>etype = PHONE_NUMBER, evalue = str ''3914880343'', estart = 2, eend = 12\<rparr>,
           \<lparr>etype = CREDIT_CARD, evalue = str ''4539148803436467'', estart = 0, eend = 16\<rparr>] \<and>
   map_option (map_sum id fst)
     (anonymizeText stub_faker (str ''4539148803436467 ok'') (init_session 0)) =
     Some (Inr (str ''6011-6212-3456-7891ok''))"
  by code_simp

end
